theory Spec2Isabelle
  imports Main "HOL-Library.Word"
begin

section \<open>Spin locks and lock statistics (spinlock.c)\<close>

text \<open>
  A shallow embedding of \<^verbatim>\<open>spinlock.c\<close>, built with \<^verbatim>\<open>LOCKSTAT\<close> on. The switch
  \<^verbatim>\<open>SPINLOCK_DEBUG\<close> is a parameter \<open>dbg\<close> of every function whose body it changes.
  The current CPU (\<^verbatim>\<open>mycpu()\<close>, \<^verbatim>\<open>cpunum()\<close>) is the parameter \<open>c\<close>. The tracing
  hooks \<^verbatim>\<open>mtlock\<close>, \<^verbatim>\<open>mtacquired\<close>, \<^verbatim>\<open>mtunlock\<close> and the console output of
  \<^verbatim>\<open>cprintf\<close> change nothing that the file reads, and are left out.
\<close>

subsection \<open>Data\<close>

type_synonym u8 = "8 word"
type_synonym u32 = "32 word"
type_synonym u64 = "64 word"

text \<open>Addresses of heap objects; the null pointer is \<open>None\<close> of \<open>addr option\<close>.\<close>

type_synonym addr = nat

text \<open>
  \<^verbatim>\<open>struct cpulockstat\<close>, \<^verbatim>\<open>struct lockstat\<close> and \<^verbatim>\<open>struct klockstat\<close> are declared
  in a header that is not part of the sources at hand; the fields are the ones that
  \<^verbatim>\<open>spinlock.c\<close> uses. The array \<^verbatim>\<open>s.cpu[]\<close> is a function of the CPU number, the
  counter is taken to be 64 bits wide, and the list link of a record is its place in
  \<open>lockstat_list\<close> below. The field \<^verbatim>\<open>s\<close> of \<^verbatim>\<open>struct klockstat\<close> is \<open>lstat\<close>.
\<close>

record cpulockstat =
  acquires :: u64

record lockstat =
  s_name :: string
  s_cpu :: "nat \<Rightarrow> cpulockstat"

record klockstat =
  active :: int
  lstat :: lockstat

text \<open>
  \<^verbatim>\<open>struct spinlock\<close>: the lock word, the debug fields (owner CPU and name; the
  call-stack snapshot \<^verbatim>\<open>pcs\<close> is written but never read here, and is left out),
  and the link to the statistics record.
\<close>

record spinlock =
  locked :: u32
  name :: string
  cpu :: "nat option"
  stat :: "addr option"

text \<open>
  Per-CPU interrupt state (\<^verbatim>\<open>struct cpu\<close> and the interrupt flag of the processor):
  the nesting depth, the saved flag, and the flag itself.
\<close>

record cpu_state =
  ncli :: nat
  intena :: bool
  iflag :: bool

text \<open>
  The kernel state that \<^verbatim>\<open>spinlock.c\<close> works on: its three static variables, the
  heap of statistics records, and the per-CPU interrupt state. \<open>xchgs\<close> counts the
  atomic exchanges executed so far; it is an observation of the run, not a variable of
  the program.
\<close>

record kstate =
  lockstat_enable :: int
  lockstat_list :: "addr list"
  lockstat_lock :: spinlock
  kmem :: "addr \<rightharpoonup> klockstat"
  cpus :: "nat \<Rightarrow> cpu_state"
  xchgs :: nat

text \<open>
  What a call does: it returns a value, it panics (the kernel halts), it dereferences a
  pointer to no live object, or it spins forever.
\<close>

datatype 'a outcome = Ret 'a | Panic string | Fault | Spins

fun obind :: "'a outcome \<Rightarrow> ('a \<Rightarrow> 'b outcome) \<Rightarrow> 'b outcome" where
  "obind (Ret x) f = f x"
| "obind (Panic m) f = Panic m"
| "obind Fault f = Fault"
| "obind Spins f = Spins"

subsection \<open>Services from outside the file\<close>

text \<open>
  Modelled from the spec: \<^verbatim>\<open>xchg32\<close> (amd64.h) is missing; the spec has it as a
  single-word atomic exchange that writes the new value and returns the previous one.
  Here it acts on the lock word of \<open>lk\<close>.
\<close>

definition xchg32 :: "spinlock \<times> kstate \<Rightarrow> u32 \<Rightarrow> u32 \<times> spinlock \<times> kstate" where
  "xchg32 = (\<lambda>(lk, s) v. (locked lk, lk\<lparr>locked := v\<rparr>, s\<lparr>xchgs := xchgs s + 1\<rparr>))"

text \<open>
  Modelled from the spec: \<^verbatim>\<open>pushcli\<close> is missing; the spec (4.2, pushMask): if the
  depth is 0, capture the interrupt-enabled flag into the saved flag; mask interrupts
  unconditionally; increment the depth.
\<close>

definition pushcli :: "nat \<Rightarrow> kstate \<Rightarrow> kstate" where
  "pushcli c s =
     (let k = cpus s c;
          k1 = (if ncli k = 0 then k\<lparr>intena := iflag k\<rparr> else k)
      in s\<lparr>cpus := (cpus s)(c := k1\<lparr>iflag := False, ncli := ncli k1 + 1\<rparr>)\<rparr>)"

text \<open>
  Modelled from the spec: \<^verbatim>\<open>popcli\<close> is missing; the spec (4.2, popMask): decrement
  the depth; if it reaches 0, restore the interrupt-enabled flag to the saved flag. More
  pops than pushes are a fatal condition.
\<close>

definition popcli :: "nat \<Rightarrow> kstate \<Rightarrow> kstate outcome" where
  "popcli c s =
     (let k = cpus s c in
      if ncli k = 0 then Panic ''popcli''
      else let k1 = k\<lparr>ncli := ncli k - 1\<rparr>
           in Ret (s\<lparr>cpus := (cpus s)(c := (if ncli k1 = 0 then k1\<lparr>iflag := intena k1\<rparr> else k1))\<rparr>))"

text \<open>
  Modelled from the spec: \<^verbatim>\<open>safestrcpy\<close> is missing; the spec has the record's name
  as a bounded-length copy of the lock's display name. A buffer of \<open>n\<close> bytes holds
  at most \<open>n - 1\<close> characters before the terminating zero.
\<close>

definition safestrcpy :: "string \<Rightarrow> nat \<Rightarrow> string" where
  "safestrcpy t n = take (n - 1) t"

text \<open>
  Modelled from the spec: the command codes \<^verbatim>\<open>LOCKSTAT_START\<close>, \<^verbatim>\<open>LOCKSTAT_STOP\<close> and
  \<^verbatim>\<open>LOCKSTAT_CLEAR\<close> are missing; the spec (6) has 0 = start, 1 = stop, 2 = clear.
\<close>

definition LOCKSTAT_START :: int where "LOCKSTAT_START = 0"
definition LOCKSTAT_STOP :: int where "LOCKSTAT_STOP = 1"
definition LOCKSTAT_CLEAR :: int where "LOCKSTAT_CLEAR = 2"

subsection \<open>The lock\<close>

text \<open>\<^verbatim>\<open>holding\<close>: the lock word is set and the recorded owner is this CPU.\<close>

definition holding :: "nat \<Rightarrow> spinlock \<Rightarrow> bool" where
  "holding c lock = (locked lock \<noteq> 0 \<and> cpu lock = Some c)"

definition locking :: "bool \<Rightarrow> nat \<Rightarrow> spinlock \<Rightarrow> unit outcome" where
  "locking dbg c lk = (if dbg \<and> holding c lk then Panic ''acquire'' else Ret ())"

text \<open>
  \<^verbatim>\<open>locked(lk)\<close>, here \<open>locked_hook\<close> (the lock word has the name \<open>locked\<close>): the
  owner is recorded in a debug build; the counter of the current CPU goes up by one if
  collection is on and the lock has a record.
\<close>

definition locked_hook :: "bool \<Rightarrow> nat \<Rightarrow> spinlock \<times> kstate \<Rightarrow> (spinlock \<times> kstate) outcome" where
  "locked_hook dbg c = (\<lambda>(lk, s).
     let lk1 = (if dbg then lk\<lparr>cpu := Some c\<rparr> else lk) in
     if lockstat_enable s \<noteq> 0 \<and> stat lk1 \<noteq> None then
       (case kmem s (the (stat lk1)) of
          None \<Rightarrow> Fault
        | Some k \<Rightarrow>
            let cs = s_cpu (lstat k);
                k1 = k\<lparr>lstat := (lstat k)\<lparr>s_cpu := cs(c := (cs c)\<lparr>acquires := acquires (cs c) + 1\<rparr>)\<rparr>\<rparr>
            in Ret (lk1, s\<lparr>kmem := (kmem s)(the (stat lk1) \<mapsto> k1)\<rparr>))
     else Ret (lk1, s))"

definition releasing :: "bool \<Rightarrow> nat \<Rightarrow> spinlock \<Rightarrow> spinlock outcome" where
  "releasing dbg c lk =
     (if dbg \<and> \<not> holding c lk then Panic ''release''
      else Ret (if dbg then lk\<lparr>cpu := None\<rparr> else lk))"

definition initlock :: "bool \<Rightarrow> spinlock \<Rightarrow> string \<Rightarrow> spinlock" where
  "initlock dbg lk nm =
     (let lk1 = (if dbg then lk\<lparr>name := nm, cpu := None\<rparr> else lk)
      in lk1\<lparr>stat := None, locked := 0\<rparr>)"

definition tryacquire :: "bool \<Rightarrow> nat \<Rightarrow> spinlock \<times> kstate \<Rightarrow> (int \<times> spinlock \<times> kstate) outcome" where
  "tryacquire dbg c = (\<lambda>(lk, s).
     let s1 = pushcli c s in
     obind (locking dbg c lk) (\<lambda>_.
       case xchg32 (lk, s1) 1 of (old, lk2, s2) \<Rightarrow>
         if old \<noteq> 0 then obind (popcli c s2) (\<lambda>s3. Ret (0, lk2, s3))
         else obind (locked_hook dbg c (lk2, s2)) (\<lambda>r. Ret (1, r))))"

text \<open>
  The loop of \<^verbatim>\<open>acquire\<close>: exchange until the value read is 0. Run by one CPU
  alone it need not end; \<open>None\<close> is the loop that runs forever.
\<close>

partial_function (option) spin :: "spinlock \<times> kstate \<Rightarrow> (spinlock \<times> kstate) option" where
  "spin ls = (case xchg32 ls 1 of (old, ls') \<Rightarrow> if old \<noteq> 0 then spin ls' else Some ls')"

definition acquire :: "bool \<Rightarrow> nat \<Rightarrow> spinlock \<times> kstate \<Rightarrow> (spinlock \<times> kstate) outcome" where
  "acquire dbg c = (\<lambda>(lk, s).
     let s1 = pushcli c s in
     obind (locking dbg c lk) (\<lambda>_.
       case spin (lk, s1) of
         None \<Rightarrow> Spins
       | Some ls2 \<Rightarrow> locked_hook dbg c ls2))"

definition release :: "bool \<Rightarrow> nat \<Rightarrow> spinlock \<times> kstate \<Rightarrow> (spinlock \<times> kstate) outcome" where
  "release dbg c = (\<lambda>(lk, s).
     obind (releasing dbg c lk) (\<lambda>lk1.
       case xchg32 (lk1, s) 0 of (old, lk2, s2) \<Rightarrow>
         obind (popcli c s2) (\<lambda>s3. Ret (lk2, s3))))"

subsection \<open>Lock statistics\<close>

text \<open>
  \<^verbatim>\<open>acquire(&lockstat_lock)\<close> and \<^verbatim>\<open>release(&lockstat_lock)\<close>: the registry lock
  is a static variable, so the lock that comes back is stored in the state.
\<close>

definition acquire_lockstat_lock :: "bool \<Rightarrow> nat \<Rightarrow> kstate \<Rightarrow> kstate outcome" where
  "acquire_lockstat_lock dbg c s =
     obind (acquire dbg c (lockstat_lock s, s)) (\<lambda>(lk, s'). Ret (s'\<lparr>lockstat_lock := lk\<rparr>))"

definition release_lockstat_lock :: "bool \<Rightarrow> nat \<Rightarrow> kstate \<Rightarrow> kstate outcome" where
  "release_lockstat_lock dbg c s =
     obind (release dbg c (lockstat_lock s, s)) (\<lambda>(lk, s'). Ret (s'\<lparr>lockstat_lock := lk\<rparr>))"

text \<open>The record after \<^verbatim>\<open>memset(lk->stat, 0, sizeof(*lk->stat))\<close>.\<close>

definition zero_cpulockstat :: cpulockstat where
  "zero_cpulockstat = \<lparr>acquires = 0\<rparr>"

definition zero_klockstat :: klockstat where
  "zero_klockstat = \<lparr>active = 0, lstat = \<lparr>s_name = [], s_cpu = (\<lambda>_. zero_cpulockstat)\<rparr>\<rparr>"

text \<open>
  \<^verbatim>\<open>lockstat_init\<close>. Modelled from the spec: \<^verbatim>\<open>kmalloc\<close> is missing; the spec (6)
  has it as bounded dynamic allocation. Its answer is the parameter \<open>km\<close>: null, or
  the address of the new block. \<open>namesz\<close> is \<^verbatim>\<open>sizeof(lk->stat->s.name)\<close>.
\<close>

definition lockstat_init ::
  "bool \<Rightarrow> nat \<Rightarrow> nat \<Rightarrow> addr option \<Rightarrow> spinlock \<times> kstate \<Rightarrow> (spinlock \<times> kstate) outcome" where
  "lockstat_init dbg c namesz km = (\<lambda>(lk, s).
     if stat lk \<noteq> None then Panic ''initlockstat''
     else
       let lk1 = lk\<lparr>stat := km\<rparr> in
       case stat lk1 of
         None \<Rightarrow> Ret (lk1, s)
       | Some a \<Rightarrow>
           let k0 = zero_klockstat;
               k1 = k0\<lparr>active := 1\<rparr>;
               k2 = k1\<lparr>lstat := (lstat k1)\<lparr>s_name := safestrcpy (name lk1) namesz\<rparr>\<rparr>;
               s1 = s\<lparr>kmem := (kmem s)(a \<mapsto> k2)\<rparr>
           in obind (acquire_lockstat_lock dbg c s1) (\<lambda>s2.
                let s3 = s2\<lparr>lockstat_list := a # lockstat_list s2\<rparr> in
                obind (release_lockstat_lock dbg c s3) (\<lambda>s4. Ret (lk1, s4))))"

definition lockstat_stop :: "spinlock \<times> kstate \<Rightarrow> (spinlock \<times> kstate) outcome" where
  "lockstat_stop = (\<lambda>(lk, s).
     case stat lk of
       None \<Rightarrow> Ret (lk, s)
     | Some a \<Rightarrow>
         (case kmem s a of
            None \<Rightarrow> Fault
          | Some k \<Rightarrow> Ret (lk\<lparr>stat := None\<rparr>, s\<lparr>kmem := (kmem s)(a \<mapsto> k\<lparr>active := 0\<rparr>)\<rparr>)))"

text \<open>
  The loop of \<^verbatim>\<open>lockstat_clear\<close> (\<^verbatim>\<open>LIST_FOREACH_SAFE\<close>): the successor is read
  before the body runs, so the walk goes over the list as it was on entry.
  \<^verbatim>\<open>LIST_REMOVE\<close> unlinks the record, \<^verbatim>\<open>kmfree\<close> ends its life.
\<close>

fun clear_loop :: "addr list \<Rightarrow> kstate \<Rightarrow> kstate outcome" where
  "clear_loop [] s = Ret s"
| "clear_loop (a # as) s =
     (case kmem s a of
        None \<Rightarrow> Fault
      | Some k \<Rightarrow>
          if active k = 0 then
            clear_loop as (s\<lparr>lockstat_list := remove1 a (lockstat_list s), kmem := (kmem s)(a := None)\<rparr>)
          else
            clear_loop as
              (s\<lparr>kmem := (kmem s)(a \<mapsto> k\<lparr>lstat := (lstat k)\<lparr>s_cpu := (\<lambda>_. zero_cpulockstat)\<rparr>\<rparr>)\<rparr>))"

definition lockstat_clear :: "bool \<Rightarrow> nat \<Rightarrow> kstate \<Rightarrow> kstate outcome" where
  "lockstat_clear dbg c s =
     obind (acquire_lockstat_lock dbg c s) (\<lambda>s1.
       obind (clear_loop (lockstat_list s1) s1) (\<lambda>s2.
         release_lockstat_lock dbg c s2))"

text \<open>
  \<^verbatim>\<open>lockstat_read\<close>. \<open>sz\<close> is \<^verbatim>\<open>sizeof(struct lockstat)\<close>, a positive constant of
  the build. The destination buffer is seen through the \<^verbatim>\<open>memmove\<close> calls made on it:
  each is an entry (offset from the start of the buffer, record copied, number of bytes).
  The loop state is the write position \<^verbatim>\<open>dst\<close>, \<^verbatim>\<open>n\<close>, \<^verbatim>\<open>cur\<close> and the copies so far.
\<close>

type_synonym copy = "nat \<times> lockstat \<times> nat"

definition bytes_copied :: "copy list \<Rightarrow> nat" where
  "bytes_copied out = sum_list (map (\<lambda>(d, r, len). len) out)"

fun read_loop ::
  "u64 \<Rightarrow> u32 \<Rightarrow> (addr \<rightharpoonup> klockstat) \<Rightarrow> addr list \<Rightarrow> nat \<times> u32 \<times> u32 \<times> copy list
     \<Rightarrow> (nat \<times> u32 \<times> u32 \<times> copy list) outcome" where
  "read_loop sz off m [] st = Ret st"
| "read_loop sz off m (a # as) (dst, n, cur, out) =
     (if (ucast n :: u64) < sz then Ret (dst, n, cur, out)
      else
        case m a of
          None \<Rightarrow> Fault
        | Some k \<Rightarrow>
            if off \<le> cur then
              read_loop sz off m as
                (dst + unat sz, n - ucast sz, cur + ucast sz, out @ [(dst, lstat k, unat sz)])
            else read_loop sz off m as (dst, n, cur + ucast sz, out))"

definition lockstat_read ::
  "bool \<Rightarrow> nat \<Rightarrow> u64 \<Rightarrow> u32 \<Rightarrow> u32 \<Rightarrow> kstate \<Rightarrow> (int \<times> copy list \<times> kstate) outcome" where
  "lockstat_read dbg c sz off n s =
     (if (ucast off :: u64) mod sz \<noteq> 0 \<or> (ucast n :: u64) < sz then Ret (- 1, [], s)
      else
        obind (acquire_lockstat_lock dbg c s) (\<lambda>s1.
          obind (read_loop sz off (kmem s1) (lockstat_list s1) (0, n, 0, [])) (\<lambda>(dst, n', cur, out).
            obind (release_lockstat_lock dbg c s1) (\<lambda>s2.
              Ret (if off \<le> cur then sint (cur - off) else 0, out, s2)))))"

text \<open>
  \<^verbatim>\<open>lockstat_write\<close>. \<open>buf\<close> holds the bytes at \<^verbatim>\<open>buf\<close>; \<^verbatim>\<open>char\<close> is signed, and
  \<^verbatim>\<open>'0'\<close> is 48. The count \<open>n\<close> goes back through the \<^verbatim>\<open>int\<close> return type.
\<close>

definition lockstat_write :: "bool \<Rightarrow> nat \<Rightarrow> u8 list \<Rightarrow> u32 \<Rightarrow> kstate \<Rightarrow> (int \<times> kstate) outcome" where
  "lockstat_write dbg c buf n s =
     (case buf of
        [] \<Rightarrow> Fault
      | b # _ \<Rightarrow>
          let cmd = sint b - 48 in
          if cmd = LOCKSTAT_START then Ret (sint n, s\<lparr>lockstat_enable := 1\<rparr>)
          else if cmd = LOCKSTAT_STOP then Ret (sint n, s\<lparr>lockstat_enable := 0\<rparr>)
          else if cmd = LOCKSTAT_CLEAR then obind (lockstat_clear dbg c s) (\<lambda>s'. Ret (sint n, s'))
          else Ret (- 1, s))"

subsection \<open>Several CPUs on one lock\<close>

text \<open>
  Each CPU runs \<^verbatim>\<open>acquire\<close>, \<^verbatim>\<open>tryacquire\<close> and \<^verbatim>\<open>release\<close> as written, and the
  CPUs interleave between any two statements; the exchange is one step. The place of a
  CPU in the code:
  \<^item> \<open>Idle\<close>: in none of the three functions, and not holding the lock;
  \<^item> \<open>Spinning\<close>: in \<^verbatim>\<open>acquire\<close>, after \<^verbatim>\<open>pushcli\<close> and \<^verbatim>\<open>locking\<close>, at the loop;
  \<^item> \<open>Trying\<close>: in \<^verbatim>\<open>tryacquire\<close>, after \<^verbatim>\<open>pushcli\<close> and \<^verbatim>\<open>locking\<close>, at the exchange;
  \<^item> \<open>TryFailed\<close>: in \<^verbatim>\<open>tryacquire\<close>, the exchange read a nonzero value, at \<^verbatim>\<open>popcli\<close>;
  \<^item> \<open>Acquired\<close>: the exchange read 0, at \<^verbatim>\<open>locked(lk)\<close>;
  \<^item> \<open>Critical\<close>: \<^verbatim>\<open>acquire\<close> or a successful \<^verbatim>\<open>tryacquire\<close> has returned, and the
    matching \<^verbatim>\<open>release\<close> has not started;
  \<^item> \<open>Releasing\<close>: in \<^verbatim>\<open>release\<close>, after \<^verbatim>\<open>releasing\<close>, at the exchange;
  \<^item> \<open>Released\<close>: in \<^verbatim>\<open>release\<close>, after the exchange, at \<^verbatim>\<open>popcli\<close>.
  A CPU calls \<^verbatim>\<open>release\<close> only for an acquisition of its own. A statement that panics
  has no step: the kernel halts.
\<close>

datatype place = Idle | Spinning | Trying | TryFailed | Acquired | Critical | Releasing | Released

type_synonym conf = "(spinlock \<times> kstate) \<times> (nat \<Rightarrow> place)"

inductive cstep :: "bool \<Rightarrow> conf \<Rightarrow> conf \<Rightarrow> bool" for dbg :: bool where
  acquire_enter:
    "pl c = Idle \<Longrightarrow> locking dbg c lk = Ret () \<Longrightarrow>
     cstep dbg ((lk, s), pl) ((lk, pushcli c s), pl(c := Spinning))"
| acquire_retry:
    "pl c = Spinning \<Longrightarrow> xchg32 (lk, s) 1 = (old, ls') \<Longrightarrow> old \<noteq> 0 \<Longrightarrow>
     cstep dbg ((lk, s), pl) (ls', pl)"
| acquire_won:
    "pl c = Spinning \<Longrightarrow> xchg32 (lk, s) 1 = (old, ls') \<Longrightarrow> old = 0 \<Longrightarrow>
     cstep dbg ((lk, s), pl) (ls', pl(c := Acquired))"
| try_enter:
    "pl c = Idle \<Longrightarrow> locking dbg c lk = Ret () \<Longrightarrow>
     cstep dbg ((lk, s), pl) ((lk, pushcli c s), pl(c := Trying))"
| try_lost:
    "pl c = Trying \<Longrightarrow> xchg32 (lk, s) 1 = (old, ls') \<Longrightarrow> old \<noteq> 0 \<Longrightarrow>
     cstep dbg ((lk, s), pl) (ls', pl(c := TryFailed))"
| try_won:
    "pl c = Trying \<Longrightarrow> xchg32 (lk, s) 1 = (old, ls') \<Longrightarrow> old = 0 \<Longrightarrow>
     cstep dbg ((lk, s), pl) (ls', pl(c := Acquired))"
| try_fail_return:
    "pl c = TryFailed \<Longrightarrow> popcli c s = Ret s' \<Longrightarrow>
     cstep dbg ((lk, s), pl) ((lk, s'), pl(c := Idle))"
| acquire_return:
    "pl c = Acquired \<Longrightarrow> locked_hook dbg c (lk, s) = Ret ls' \<Longrightarrow>
     cstep dbg ((lk, s), pl) (ls', pl(c := Critical))"
| release_enter:
    "pl c = Critical \<Longrightarrow> releasing dbg c lk = Ret lk' \<Longrightarrow>
     cstep dbg ((lk, s), pl) ((lk', s), pl(c := Releasing))"
| release_xchg:
    "pl c = Releasing \<Longrightarrow> xchg32 (lk, s) 0 = (old, ls') \<Longrightarrow>
     cstep dbg ((lk, s), pl) (ls', pl(c := Released))"
| release_return:
    "pl c = Released \<Longrightarrow> popcli c s = Ret s' \<Longrightarrow>
     cstep dbg ((lk, s), pl) ((lk, s'), pl(c := Idle))"

text \<open>
  The runs start from a lock that \<^verbatim>\<open>initlock\<close> has set up, with every CPU outside
  the lock's functions.
\<close>

inductive reachable :: "bool \<Rightarrow> conf \<Rightarrow> bool" for dbg :: bool where
  start: "reachable dbg ((initlock dbg lk nm, s), (\<lambda>_. Idle))"
| step: "reachable dbg cf \<Longrightarrow> cstep dbg cf cf' \<Longrightarrow> reachable dbg cf'"

subsection \<open>Invariants and example states\<close>

text \<open>A CPU has the lock from the exchange that read 0 up to the exchange that writes 0.\<close>

definition in_lock :: "(nat \<Rightarrow> place) \<Rightarrow> nat \<Rightarrow> bool" where
  "in_lock pl c = (pl c = Acquired \<or> pl c = Critical \<or> pl c = Releasing)"

definition lock_inv :: "conf \<Rightarrow> bool" where
  "lock_inv = (\<lambda>((lk, s), pl).
     (locked lk = 0 \<longrightarrow> (\<forall>c. \<not> in_lock pl c)) \<and>
     (\<forall>c c'. in_lock pl c \<and> in_lock pl c' \<longrightarrow> c = c'))"

text \<open>
  The registry as the code keeps it: the registry lock has no statistics record of its
  own, no record is linked twice, and every linked record is live. \<open>registry_free\<close>:
  no CPU holds the registry lock.
\<close>

definition live :: "kstate \<Rightarrow> addr \<Rightarrow> bool" where
  "live s a = (case kmem s a of None \<Rightarrow> False | Some k \<Rightarrow> True)"

definition registry_wf :: "kstate \<Rightarrow> bool" where
  "registry_wf s =
     (stat (lockstat_lock s) = None \<and> distinct (lockstat_list s) \<and>
      list_all (live s) (lockstat_list s))"

definition registry_free :: "kstate \<Rightarrow> bool" where
  "registry_free s = (locked (lockstat_lock s) = 0)"

text \<open>The statistics link of a lock is null or points to a live record.\<close>

definition link_ok :: "kstate \<Rightarrow> spinlock \<Rightarrow> bool" where
  "link_ok s lk = (case stat lk of None \<Rightarrow> True | Some a \<Rightarrow> live s a)"

text \<open>
  The state after boot, from the static initialisers of the file: collection off, an
  empty registry, the registry lock free; no record allocated, interrupts on.
\<close>

definition boot :: kstate where
  "boot = \<lparr>lockstat_enable = 0, lockstat_list = [],
           lockstat_lock = \<lparr>locked = 0, name = ''lockstat'', cpu = None, stat = None\<rparr>,
           kmem = Map.empty,
           cpus = (\<lambda>_. \<lparr>ncli = 0, intena = False, iflag = True\<rparr>),
           xchgs = 0\<rparr>"

text \<open>A lock, and a registry of two records: one of a tracked lock, one detached.\<close>

definition ftable_lock :: spinlock where
  "ftable_lock = \<lparr>locked = 0, name = ''ftable'', cpu = None, stat = None\<rparr>"

definition rec_tracked :: klockstat where
  "rec_tracked = \<lparr>active = 1,
     lstat = \<lparr>s_name = ''ftable'', s_cpu = (\<lambda>_. \<lparr>acquires = 0\<rparr>)(0 := \<lparr>acquires = 5\<rparr>)\<rparr>\<rparr>"

definition rec_detached :: klockstat where
  "rec_detached = \<lparr>active = 0, lstat = \<lparr>s_name = ''icache'', s_cpu = (\<lambda>_. \<lparr>acquires = 3\<rparr>)\<rparr>\<rparr>"

definition two_records :: kstate where
  "two_records = boot\<lparr>lockstat_list := [2, 1], kmem := [1 \<mapsto> rec_tracked, 2 \<mapsto> rec_detached]\<rparr>"

section \<open>Properties\<close>

subsection \<open>Well-formed states\<close>

lemma live_iff: "live s a = (a \<in> dom (kmem s))"
  by (auto simp: live_def split: option.splits)

lemma registry_wf_iff:
  "registry_wf s =
     (stat (lockstat_lock s) = None \<and> distinct (lockstat_list s) \<and>
      set (lockstat_list s) \<subseteq> dom (kmem s))"
  by (auto simp: registry_wf_def live_iff list_all_iff)

lemma link_ok_iff:
  "link_ok s lk = (case stat lk of None \<Rightarrow> True | Some a \<Rightarrow> a \<in> dom (kmem s))"
  by (simp add: link_ok_def live_iff split: option.splits)

subsection \<open>Mutual exclusion\<close>

lemma in_lock_upd:
  "in_lock (pl(c := x)) c' =
     (if c' = c then x = Acquired \<or> x = Critical \<or> x = Releasing else in_lock pl c')"
  by (simp add: in_lock_def)

lemma lock_inv_start: "lock_inv ((initlock dbg lk nm, s), (\<lambda>_. Idle))"
  by (simp add: lock_inv_def in_lock_def)

lemma locked_hook_locked: "locked_hook dbg c (lk, s) = Ret (lk', s') \<Longrightarrow> locked lk' = locked lk"
  by (auto simp: locked_hook_def Let_def split: if_splits option.splits)

lemma releasing_locked: "releasing dbg c lk = Ret lk' \<Longrightarrow> locked lk' = locked lk"
  by (auto simp: releasing_def split: if_splits)

lemma lock_inv_step: "cstep dbg cf cf' \<Longrightarrow> lock_inv cf \<Longrightarrow> lock_inv cf'"
proof (induction rule: cstep.induct)
  case (acquire_enter pl c lk s)
  then show ?case by (auto simp: lock_inv_def in_lock_upd in_lock_def split: if_splits)
next
  case (acquire_retry pl c lk s old ls')
  then show ?case by (auto simp: lock_inv_def in_lock_upd xchg32_def split: if_splits)
next
  case (acquire_won pl c lk s old ls')
  then show ?case by (auto simp: lock_inv_def in_lock_upd xchg32_def split: if_splits)
next
  case (try_enter pl c lk s)
  then show ?case by (auto simp: lock_inv_def in_lock_upd in_lock_def split: if_splits)
next
  case (try_lost pl c lk s old ls')
  then show ?case by (auto simp: lock_inv_def in_lock_upd xchg32_def split: if_splits)
next
  case (try_won pl c lk s old ls')
  then show ?case by (auto simp: lock_inv_def in_lock_upd xchg32_def split: if_splits)
next
  case (try_fail_return pl c s s' lk)
  then show ?case by (auto simp: lock_inv_def in_lock_upd in_lock_def split: if_splits)
next
  case (acquire_return pl c lk s ls')
  obtain lk' s' where ls': "ls' = (lk', s')" by (cases ls')
  with acquire_return have "locked lk' = locked lk" by (auto dest: locked_hook_locked)
  with acquire_return ls' show ?case
    by (auto simp: lock_inv_def in_lock_upd in_lock_def split: if_splits)
next
  case (release_enter pl c lk lk' s)
  then have "locked lk' = locked lk" by (auto dest: releasing_locked)
  with release_enter show ?case
    by (auto simp: lock_inv_def in_lock_upd in_lock_def split: if_splits)
next
  case (release_xchg pl c lk s old ls')
  then have own: "in_lock pl c" by (simp add: in_lock_def)
  from release_xchg have uniq: "\<And>d. in_lock pl d \<Longrightarrow> d = c"
    using own by (auto simp: lock_inv_def)
  from release_xchg show ?case
    by (auto simp: lock_inv_def in_lock_upd xchg32_def dest: uniq split: if_splits)
next
  case (release_return pl c s s' lk)
  then show ?case by (auto simp: lock_inv_def in_lock_upd in_lock_def split: if_splits)
qed

lemma reachable_lock_inv: "reachable dbg cf \<Longrightarrow> lock_inv cf"
  by (induction rule: reachable.induct) (auto intro: lock_inv_start lock_inv_step)

text \<open>
  C1. In every configuration that the CPUs can reach by interleaving the statements of
  \<^verbatim>\<open>acquire\<close>, \<^verbatim>\<open>tryacquire\<close> and \<^verbatim>\<open>release\<close> on one lock, at most one CPU is
  between the return of its acquisition and the start of the matching release.
\<close>

theorem mutual_exclusion:
  "reachable dbg (ls, pl) \<Longrightarrow> pl c = Critical \<Longrightarrow> pl c' = Critical \<Longrightarrow> c = c'"
  using reachable_lock_inv [of dbg "(ls, pl)"]
  by (cases ls) (auto simp: lock_inv_def in_lock_def)

text \<open>
  A run that reaches the hypotheses: from boot, CPU 0 enters \<^verbatim>\<open>acquire\<close>, wins the
  exchange and returns, while CPU 1 enters \<^verbatim>\<open>acquire\<close> and spins.
\<close>

theorem mutual_exclusion_witness:
  "reachable False
     ((ftable_lock\<lparr>locked := 1\<rparr>, (pushcli 1 (pushcli 0 boot))\<lparr>xchgs := 2\<rparr>),
      (\<lambda>_. Idle)(0 := Critical, 1 := Spinning)) \<and>
   ((\<lambda>_. Idle)(0 := Critical, 1 := Spinning)) (0::nat) = Critical \<and> (0::nat) = 0"
proof -
  let ?l0 = "initlock False ftable_lock ''ftable''"
  have l0: "?l0 = ftable_lock" by (simp add: initlock_def ftable_lock_def)
  have r0: "reachable False ((?l0, boot), (\<lambda>_. Idle))" by (rule reachable.start)
  have "cstep False ((?l0, boot), (\<lambda>_. Idle)) ((?l0, pushcli 0 boot), (\<lambda>_. Idle)(0 := Spinning))"
    by (rule cstep.acquire_enter) (simp_all add: locking_def)
  with r0 have r1: "reachable False ((?l0, pushcli 0 boot), (\<lambda>_. Idle)(0 := Spinning))"
    by (rule reachable.step)
  have "cstep False ((?l0, pushcli 0 boot), (\<lambda>_. Idle)(0 := Spinning))
          ((?l0\<lparr>locked := 1\<rparr>, (pushcli 0 boot)\<lparr>xchgs := 1\<rparr>), ((\<lambda>_. Idle)(0 := Spinning))(0 := Acquired))"
    by (rule cstep.acquire_won [where old = 0])
      (simp_all add: xchg32_def initlock_def ftable_lock_def pushcli_def boot_def Let_def)
  with r1 have r2: "reachable False
      ((?l0\<lparr>locked := 1\<rparr>, (pushcli 0 boot)\<lparr>xchgs := 1\<rparr>), (\<lambda>_. Idle)(0 := Acquired))"
    by (auto dest: reachable.step)
  have "cstep False ((?l0\<lparr>locked := 1\<rparr>, (pushcli 0 boot)\<lparr>xchgs := 1\<rparr>), (\<lambda>_. Idle)(0 := Acquired))
          ((?l0\<lparr>locked := 1\<rparr>, (pushcli 0 boot)\<lparr>xchgs := 1\<rparr>), ((\<lambda>_. Idle)(0 := Acquired))(0 := Critical))"
    by (rule cstep.acquire_return)
      (simp_all add: locked_hook_def initlock_def ftable_lock_def pushcli_def boot_def Let_def)
  with r2 have r3: "reachable False
      ((?l0\<lparr>locked := 1\<rparr>, (pushcli 0 boot)\<lparr>xchgs := 1\<rparr>), (\<lambda>_. Idle)(0 := Critical))"
    by (auto dest: reachable.step)
  have "cstep False ((?l0\<lparr>locked := 1\<rparr>, (pushcli 0 boot)\<lparr>xchgs := 1\<rparr>), (\<lambda>_. Idle)(0 := Critical))
          ((?l0\<lparr>locked := 1\<rparr>, pushcli 1 ((pushcli 0 boot)\<lparr>xchgs := 1\<rparr>)),
           ((\<lambda>_. Idle)(0 := Critical))(1 := Spinning))"
    by (rule cstep.acquire_enter) (simp_all add: locking_def)
  with r3 have r4: "reachable False
      ((?l0\<lparr>locked := 1\<rparr>, pushcli 1 ((pushcli 0 boot)\<lparr>xchgs := 1\<rparr>)),
       (\<lambda>_. Idle)(0 := Critical, 1 := Spinning))"
    by (auto dest: reachable.step)
  have "cstep False
          ((?l0\<lparr>locked := 1\<rparr>, pushcli 1 ((pushcli 0 boot)\<lparr>xchgs := 1\<rparr>)),
           (\<lambda>_. Idle)(0 := Critical, 1 := Spinning))
          ((?l0\<lparr>locked := 1\<rparr>, (pushcli 1 (pushcli 0 boot))\<lparr>xchgs := 2\<rparr>),
           (\<lambda>_. Idle)(0 := Critical, 1 := Spinning))"
    by (rule cstep.acquire_retry [where c = 1 and old = 1])
      (simp_all add: xchg32_def initlock_def ftable_lock_def pushcli_def boot_def Let_def)
  with r4 have r5: "reachable False
      ((ftable_lock\<lparr>locked := 1\<rparr>, (pushcli 1 (pushcli 0 boot))\<lparr>xchgs := 2\<rparr>),
       (\<lambda>_. Idle)(0 := Critical, 1 := Spinning))"
    by (auto simp: l0 dest: reachable.step)
  have c0: "((\<lambda>_. Idle)(0 := Critical, 1 := Spinning)) (0::nat) = Critical" by simp
  from r5 c0 mutual_exclusion [OF r5 c0 c0] show ?thesis by simp
qed

subsection \<open>The spin loop and the registry lock\<close>

lemma spin_free:
  "locked lk = 0 \<Longrightarrow> spin (lk, s) = Some (lk\<lparr>locked := 1\<rparr>, s\<lparr>xchgs := xchgs s + 1\<rparr>)"
  by (subst spin.simps) (simp add: xchg32_def)

lemma spin_Some_free:
  assumes "spin ls = Some ls'"
  shows "locked (fst ls) = 0"
proof (rule spin.raw_induct [where P = "\<lambda>x y. locked (fst x) = 0", OF _ assms])
  fix f :: "spinlock \<times> kstate \<Rightarrow> (spinlock \<times> kstate) option" and x y
  assume ih: "\<And>x y. f x = Some y \<Longrightarrow> locked (fst x) = 0"
    and body: "(case xchg32 x 1 of (old, ls') \<Rightarrow> if old \<noteq> 0 then f ls' else Some ls') = Some y"
  show "locked (fst x) = 0"
  proof (rule ccontr)
    assume held: "locked (fst x) \<noteq> 0"
    obtain lk s where x: "x = (lk, s)" by (cases x)
    from body held x have "f (lk\<lparr>locked := 1\<rparr>, s\<lparr>xchgs := xchgs s + 1\<rparr>) = Some y"
      by (simp add: xchg32_def)
    from ih [OF this] show False by simp
  qed
qed

lemma spin_held: "locked lk \<noteq> 0 \<Longrightarrow> spin (lk, s) = None"
  using spin_Some_free [of "(lk, s)"] by (cases "spin (lk, s)") auto

lemma pushcli_fields:
  "lockstat_enable (pushcli c s) = lockstat_enable s"
  "lockstat_list (pushcli c s) = lockstat_list s"
  "lockstat_lock (pushcli c s) = lockstat_lock s"
  "kmem (pushcli c s) = kmem s"
  "xchgs (pushcli c s) = xchgs s"
  "ncli (cpus (pushcli c s) c) = ncli (cpus s c) + 1"
  by (simp_all add: pushcli_def Let_def)

lemma acquire_free:
  "locked lk = 0 \<Longrightarrow>
   acquire dbg c (lk, s) = locked_hook dbg c (lk\<lparr>locked := 1\<rparr>, (pushcli c s)\<lparr>xchgs := xchgs s + 1\<rparr>)"
  by (simp add: acquire_def locking_def holding_def spin_free pushcli_fields)

lemma acquire_held:
  "locked lk \<noteq> 0 \<Longrightarrow>
   acquire dbg c (lk, s) = (if dbg \<and> cpu lk = Some c then Panic ''acquire'' else Spins)"
  by (simp add: acquire_def locking_def holding_def spin_held)

lemma acquire_lockstat_lock_free:
  assumes "locked (lockstat_lock s) = 0" and "stat (lockstat_lock s) = None"
  shows "acquire_lockstat_lock dbg c s =
         Ret (s\<lparr>lockstat_lock := (lockstat_lock s)\<lparr>locked := 1, cpu := (if dbg then Some c else cpu (lockstat_lock s))\<rparr>,
                 cpus := cpus (pushcli c s), xchgs := xchgs s + 1\<rparr>)"
  using assms
  by (simp add: acquire_lockstat_lock_def acquire_free locked_hook_def pushcli_def Let_def)

lemma release_lockstat_lock_held:
  assumes "locked (lockstat_lock s) \<noteq> 0" and "dbg \<longrightarrow> cpu (lockstat_lock s) = Some c"
    and "0 < ncli (cpus s c)"
  shows "\<exists>s'. release_lockstat_lock dbg c s = Ret s' \<and>
           lockstat_enable s' = lockstat_enable s \<and> lockstat_list s' = lockstat_list s \<and>
           kmem s' = kmem s \<and> locked (lockstat_lock s') = 0 \<and>
           stat (lockstat_lock s') = stat (lockstat_lock s) \<and>
           ncli (cpus s' c) = ncli (cpus s c) - 1 \<and> xchgs s' = xchgs s + 1"
  using assms
  by (auto simp add: release_lockstat_lock_def release_def releasing_def holding_def xchg32_def
      popcli_def Let_def)

subsection \<open>The sweep\<close>

lemma clear_loop_frame:
  "clear_loop as s = Ret s' \<Longrightarrow>
     lockstat_enable s' = lockstat_enable s \<and> lockstat_lock s' = lockstat_lock s \<and>
     cpus s' = cpus s \<and> xchgs s' = xchgs s"
  by (induction as arbitrary: s) (auto split: option.splits if_splits)

lemma clear_loop_result:
  assumes "distinct as" and "set as \<subseteq> dom (kmem s)" and "distinct (lockstat_list s)"
  shows "clear_loop as s =
     Ret (s\<lparr>lockstat_list :=
              filter (\<lambda>a. a \<notin> set as \<or> (case kmem s a of None \<Rightarrow> False | Some k \<Rightarrow> active k \<noteq> 0))
                (lockstat_list s),
            kmem := (\<lambda>a. if a \<in> set as then
                        (case kmem s a of None \<Rightarrow> None
                         | Some k \<Rightarrow> if active k = 0 then None
                                     else Some (k\<lparr>lstat := (lstat k)\<lparr>s_cpu := (\<lambda>_. zero_cpulockstat)\<rparr>\<rparr>))
                      else kmem s a)\<rparr>)"
  using assms
proof (induction as arbitrary: s)
  case Nil
  then show ?case by simp
next
  case (Cons a as)
  then obtain k where k: "kmem s a = Some k" by auto
  from Cons.prems have nin: "a \<notin> set as" and das: "distinct as" by auto
  let ?keep = "\<lambda>s a. case kmem s a of None \<Rightarrow> False | Some k \<Rightarrow> active k \<noteq> 0"
  let ?swept = "\<lambda>s a. case kmem s a of None \<Rightarrow> None
                | Some k \<Rightarrow> if active k = 0 then None
                            else Some (k\<lparr>lstat := (lstat k)\<lparr>s_cpu := (\<lambda>_. zero_cpulockstat)\<rparr>\<rparr>)"
  show ?case
  proof (cases "active k = 0")
    case True
    let ?s1 = "s\<lparr>lockstat_list := remove1 a (lockstat_list s), kmem := (kmem s)(a := None)\<rparr>"
    have sub: "set as \<subseteq> dom (kmem ?s1)" using Cons.prems nin by auto
    have d1: "distinct (lockstat_list ?s1)" using Cons.prems by simp
    have rm: "remove1 a (lockstat_list s) = filter (\<lambda>b. b \<noteq> a) (lockstat_list s)"
      using Cons.prems(3) by (simp add: distinct_remove1_removeAll removeAll_filter_not_eq) metis
    have L: "filter (\<lambda>b. b \<notin> set as \<or> ?keep ?s1 b) (lockstat_list ?s1) =
             filter (\<lambda>b. b \<notin> set (a # as) \<or> ?keep s b) (lockstat_list s)"
      using k True by (auto simp: rm intro!: filter_cong split: option.splits)
    have M: "(\<lambda>b. if b \<in> set as then ?swept ?s1 b else kmem ?s1 b) =
             (\<lambda>b. if b \<in> set (a # as) then ?swept s b else kmem s b)"
      using k True nin by (auto simp: fun_eq_iff split: option.splits)
    have "clear_loop (a # as) s = clear_loop as ?s1" using k True by simp
    also have "\<dots> = Ret (?s1\<lparr>lockstat_list := filter (\<lambda>b. b \<notin> set as \<or> ?keep ?s1 b) (lockstat_list ?s1),
                 kmem := (\<lambda>b. if b \<in> set as then ?swept ?s1 b else kmem ?s1 b)\<rparr>)"
      by (rule Cons.IH [OF das sub d1])
    also have "\<dots> = Ret (s\<lparr>lockstat_list := filter (\<lambda>b. b \<notin> set (a # as) \<or> ?keep s b) (lockstat_list s),
                 kmem := (\<lambda>b. if b \<in> set (a # as) then ?swept s b else kmem s b)\<rparr>)"
      unfolding L M by simp
    finally show ?thesis .
  next
    case False
    let ?k1 = "k\<lparr>lstat := (lstat k)\<lparr>s_cpu := (\<lambda>_. zero_cpulockstat)\<rparr>\<rparr>"
    let ?s1 = "s\<lparr>kmem := (kmem s)(a \<mapsto> ?k1)\<rparr>"
    have sub: "set as \<subseteq> dom (kmem ?s1)" using Cons.prems by auto
    have d1: "distinct (lockstat_list ?s1)" using Cons.prems by simp
    have L: "filter (\<lambda>b. b \<notin> set as \<or> ?keep ?s1 b) (lockstat_list ?s1) =
             filter (\<lambda>b. b \<notin> set (a # as) \<or> ?keep s b) (lockstat_list s)"
      using k False by (auto intro!: filter_cong split: option.splits)
    have M: "(\<lambda>b. if b \<in> set as then ?swept ?s1 b else kmem ?s1 b) =
             (\<lambda>b. if b \<in> set (a # as) then ?swept s b else kmem s b)"
      using k False nin by (auto simp: fun_eq_iff split: option.splits)
    have "clear_loop (a # as) s = clear_loop as ?s1" using k False by simp
    also have "\<dots> = Ret (?s1\<lparr>lockstat_list := filter (\<lambda>b. b \<notin> set as \<or> ?keep ?s1 b) (lockstat_list ?s1),
                 kmem := (\<lambda>b. if b \<in> set as then ?swept ?s1 b else kmem ?s1 b)\<rparr>)"
      by (rule Cons.IH [OF das sub d1])
    also have "\<dots> = Ret (s\<lparr>lockstat_list := filter (\<lambda>b. b \<notin> set (a # as) \<or> ?keep s b) (lockstat_list s),
                 kmem := (\<lambda>b. if b \<in> set (a # as) then ?swept s b else kmem s b)\<rparr>)"
      unfolding L M by simp
    finally show ?thesis .
  qed
qed

lemma lockstat_clear_result:
  assumes wf: "registry_wf s" and free: "registry_free s"
  shows "\<exists>s'. lockstat_clear dbg c s = Ret s' \<and>
     lockstat_list s' =
       filter (\<lambda>a. case kmem s a of None \<Rightarrow> False | Some k \<Rightarrow> active k \<noteq> 0) (lockstat_list s) \<and>
     kmem s' = (\<lambda>a. if a \<in> set (lockstat_list s) then
                        (case kmem s a of None \<Rightarrow> None
                         | Some k \<Rightarrow> if active k = 0 then None
                                     else Some (k\<lparr>lstat := (lstat k)\<lparr>s_cpu := (\<lambda>_. zero_cpulockstat)\<rparr>\<rparr>))
                      else kmem s a) \<and>
     lockstat_enable s' = lockstat_enable s \<and>
     locked (lockstat_lock s') = 0 \<and> stat (lockstat_lock s') = None \<and>
     ncli (cpus s' c) = ncli (cpus s c) \<and> xchgs s' = xchgs s + 2"
proof -
  let ?s1 = "s\<lparr>lockstat_lock := (lockstat_lock s)\<lparr>locked := 1, cpu := (if dbg then Some c else cpu (lockstat_lock s))\<rparr>,
                 cpus := cpus (pushcli c s), xchgs := xchgs s + 1\<rparr>"
  from wf free have acq: "acquire_lockstat_lock dbg c s = Ret ?s1"
    by (simp add: registry_wf_iff registry_free_def acquire_lockstat_lock_free)
  from wf have pre: "distinct (lockstat_list ?s1)" "set (lockstat_list ?s1) \<subseteq> dom (kmem ?s1)"
    by (simp_all add: registry_wf_iff)
  note loop = clear_loop_result [OF pre(1) pre(2) pre(1)]
  then obtain s2 where s2: "clear_loop (lockstat_list ?s1) ?s1 = Ret s2" by blast
  from clear_loop_frame [OF s2] have fr: "lockstat_enable s2 = lockstat_enable s"
    "lockstat_lock s2 = lockstat_lock ?s1" "cpus s2 = cpus ?s1" "xchgs s2 = xchgs s + 1"
    by simp_all
  from loop s2 have res: "lockstat_list s2 =
       filter (\<lambda>a. case kmem s a of None \<Rightarrow> False | Some k \<Rightarrow> active k \<noteq> 0) (lockstat_list s)"
    "kmem s2 = (\<lambda>a. if a \<in> set (lockstat_list s) then
                        (case kmem s a of None \<Rightarrow> None
                         | Some k \<Rightarrow> if active k = 0 then None
                                     else Some (k\<lparr>lstat := (lstat k)\<lparr>s_cpu := (\<lambda>_. zero_cpulockstat)\<rparr>\<rparr>))
                      else kmem s a)"
    by (auto intro!: filter_cong)
  have "locked (lockstat_lock s2) \<noteq> 0" "dbg \<longrightarrow> cpu (lockstat_lock s2) = Some c"
    "0 < ncli (cpus s2 c)" "stat (lockstat_lock s2) = None"
    using fr wf by (simp_all add: registry_wf_iff pushcli_fields)
  from release_lockstat_lock_held [OF this(1-3)] this(4) fr res acq s2
  show ?thesis
    by (auto simp: lockstat_clear_def pushcli_fields)
qed

subsection \<open>Clearing the registry\<close>

lemma registry_wf_boot: "registry_wf boot" "registry_free boot"
  by (simp_all add: registry_wf_iff registry_free_def boot_def)

lemma registry_wf_two_records: "registry_wf two_records" "registry_free two_records"
  by (simp_all add: registry_wf_iff registry_free_def two_records_def boot_def)

text \<open>
  C6. With the registry lock free on entry, \<^verbatim>\<open>lockstat_clear\<close> returns; the registry
  keeps, in order, exactly the records whose \<^verbatim>\<open>active\<close> flag is nonzero; a registered
  record with flag 0 is unlinked and freed; a registered record with a nonzero flag stays
  linked and live, and only its per-CPU counters change, all to zero (name and flag are as
  before); records outside the registry are untouched.
\<close>

theorem lockstat_clear_sweeps:
  assumes "registry_wf s" and "registry_free s"
  shows "\<exists>s'. lockstat_clear dbg c s = Ret s' \<and>
     lockstat_list s' =
       filter (\<lambda>a. case kmem s a of None \<Rightarrow> False | Some k \<Rightarrow> active k \<noteq> 0) (lockstat_list s) \<and>
     (\<forall>a k. a \<in> set (lockstat_list s) \<and> kmem s a = Some k \<longrightarrow>
        (if active k = 0 then a \<notin> set (lockstat_list s') \<and> kmem s' a = None
         else a \<in> set (lockstat_list s') \<and>
              kmem s' a = Some (k\<lparr>lstat := (lstat k)\<lparr>s_cpu := (\<lambda>_. zero_cpulockstat)\<rparr>\<rparr>))) \<and>
     (\<forall>a. a \<notin> set (lockstat_list s) \<longrightarrow> kmem s' a = kmem s a)"
proof -
  from lockstat_clear_result [OF assms, of dbg c] obtain s' where
    r: "lockstat_clear dbg c s = Ret s'"
    and l: "lockstat_list s' =
       filter (\<lambda>a. case kmem s a of None \<Rightarrow> False | Some k \<Rightarrow> active k \<noteq> 0) (lockstat_list s)"
    and m: "kmem s' = (\<lambda>a. if a \<in> set (lockstat_list s) then
                        (case kmem s a of None \<Rightarrow> None
                         | Some k \<Rightarrow> if active k = 0 then None
                                     else Some (k\<lparr>lstat := (lstat k)\<lparr>s_cpu := (\<lambda>_. zero_cpulockstat)\<rparr>\<rparr>))
                      else kmem s a)"
    by blast
  show ?thesis
    by (rule exI [of _ s']) (simp add: r l m)
qed

text \<open>On the registry of two records: the detached one goes, the tracked one is reset.\<close>

theorem lockstat_clear_sweeps_witness:
  "registry_wf two_records \<and> registry_free two_records \<and>
   (\<exists>s'. lockstat_clear True 0 two_records = Ret s' \<and> lockstat_list s' = [1] \<and>
      kmem s' 2 = None \<and>
      kmem s' 1 = Some \<lparr>active = 1, lstat = \<lparr>s_name = ''ftable'', s_cpu = (\<lambda>_. \<lparr>acquires = 0\<rparr>)\<rparr>\<rparr> \<and>
      kmem s' 3 = None)"
proof -
  from lockstat_clear_sweeps [OF registry_wf_two_records, of True 0] obtain s' where
    r: "lockstat_clear True 0 two_records = Ret s'"
    and l: "lockstat_list s' =
       filter (\<lambda>a. case kmem two_records a of None \<Rightarrow> False | Some k \<Rightarrow> active k \<noteq> 0)
         (lockstat_list two_records)"
    and m: "\<forall>a k. a \<in> set (lockstat_list two_records) \<and> kmem two_records a = Some k \<longrightarrow>
        (if active k = 0 then a \<notin> set (lockstat_list s') \<and> kmem s' a = None
         else a \<in> set (lockstat_list s') \<and>
              kmem s' a = Some (k\<lparr>lstat := (lstat k)\<lparr>s_cpu := (\<lambda>_. zero_cpulockstat)\<rparr>\<rparr>))"
    and o: "\<forall>a. a \<notin> set (lockstat_list two_records) \<longrightarrow> kmem s' a = kmem two_records a"
    by blast
  have l1: "lockstat_list s' = [1]"
    using l by (simp add: two_records_def boot_def rec_tracked_def rec_detached_def)
  have m2: "kmem s' 2 = None"
    using m [rule_format, of 2 rec_detached]
    by (simp add: two_records_def boot_def rec_detached_def)
  have m1: "kmem s' 1 = Some \<lparr>active = 1, lstat = \<lparr>s_name = ''ftable'', s_cpu = (\<lambda>_. \<lparr>acquires = 0\<rparr>)\<rparr>\<rparr>"
    using m [rule_format, of 1 rec_tracked]
    by (simp add: two_records_def boot_def rec_tracked_def zero_cpulockstat_def)
  have m3: "kmem s' 3 = None"
    using o [rule_format, of 3] by (simp add: two_records_def boot_def)
  from r l1 m1 m2 m3 registry_wf_two_records show ?thesis by blast
qed

subsection \<open>Starting and stopping tracking\<close>

lemma lockstat_init_success:
  assumes nolink: "stat lk = None" and wf: "registry_wf s" and free: "registry_free s"
  shows "\<exists>s'. lockstat_init dbg c namesz (Some a) (lk, s) = Ret (lk\<lparr>stat := Some a\<rparr>, s') \<and>
        kmem s' = (kmem s)(a \<mapsto> \<lparr>active = 1,
           lstat = \<lparr>s_name = safestrcpy (name lk) namesz, s_cpu = (\<lambda>_. \<lparr>acquires = 0\<rparr>)\<rparr>\<rparr>) \<and>
        lockstat_list s' = a # lockstat_list s \<and> lockstat_enable s' = lockstat_enable s \<and>
        locked (lockstat_lock s') = 0 \<and> stat (lockstat_lock s') = None"
proof -
  let ?k = "\<lparr>active = 1,
           lstat = \<lparr>s_name = safestrcpy (name lk) namesz, s_cpu = (\<lambda>_. \<lparr>acquires = 0\<rparr>)\<rparr>\<rparr>"
  let ?s1 = "s\<lparr>kmem := (kmem s)(a \<mapsto> ?k)\<rparr>"
  let ?s2 = "?s1\<lparr>lockstat_lock := (lockstat_lock ?s1)\<lparr>locked := 1, cpu := (if dbg then Some c else cpu (lockstat_lock ?s1))\<rparr>,
                 cpus := cpus (pushcli c ?s1), xchgs := xchgs ?s1 + 1\<rparr>"
  let ?s3 = "?s2\<lparr>lockstat_list := a # lockstat_list ?s2\<rparr>"
  from wf free have acq: "acquire_lockstat_lock dbg c ?s1 = Ret ?s2"
    by (intro acquire_lockstat_lock_free) (simp_all add: registry_wf_iff registry_free_def)
  have "locked (lockstat_lock ?s3) \<noteq> 0" "dbg \<longrightarrow> cpu (lockstat_lock ?s3) = Some c"
    "0 < ncli (cpus ?s3 c)"
    by (simp_all add: pushcli_fields)
  from release_lockstat_lock_held [OF this] obtain s' where
    rel: "release_lockstat_lock dbg c ?s3 = Ret s'"
    and fr: "lockstat_enable s' = lockstat_enable ?s3" "lockstat_list s' = lockstat_list ?s3"
      "kmem s' = kmem ?s3" "locked (lockstat_lock s') = 0"
      "stat (lockstat_lock s') = stat (lockstat_lock ?s3)"
    by blast
  have "lockstat_init dbg c namesz (Some a) (lk, s) = Ret (lk\<lparr>stat := Some a\<rparr>, s')"
    using nolink acq rel
    by (simp add: lockstat_init_def Let_def zero_klockstat_def zero_cpulockstat_def)
  with fr wf show ?thesis
    by (auto simp: registry_wf_iff)
qed

text \<open>
  C7. \<^verbatim>\<open>lockstat_init\<close> on a lock that has a record panics. When the allocation
  fails, it returns with the lock's link null and the whole state as it was. When the
  allocation gives a fresh block \<open>a\<close> (and the registry lock is free on entry), it
  returns with the lock linked to \<open>a\<close>; the new record has \<^verbatim>\<open>active\<close> = 1, the
  bounded copy of the lock's name that \<^verbatim>\<open>safestrcpy\<close> makes (the name itself when it
  fits the field), and every counter zero; and \<open>a\<close> is the new head of the registry.
\<close>

theorem lockstat_init_cases:
  "(stat lk \<noteq> None \<longrightarrow> lockstat_init dbg c namesz km (lk, s) = Panic ''initlockstat'') \<and>
   (stat lk = None \<longrightarrow> lockstat_init dbg c namesz None (lk, s) = Ret (lk, s)) \<and>
   (stat lk = None \<and> a \<notin> dom (kmem s) \<and> registry_wf s \<and> registry_free s \<longrightarrow>
      (\<exists>s'. lockstat_init dbg c namesz (Some a) (lk, s) = Ret (lk\<lparr>stat := Some a\<rparr>, s') \<and>
         kmem s' = (kmem s)(a \<mapsto> \<lparr>active = 1,
            lstat = \<lparr>s_name = safestrcpy (name lk) namesz, s_cpu = (\<lambda>_. \<lparr>acquires = 0\<rparr>)\<rparr>\<rparr>) \<and>
         (length (name lk) < namesz \<longrightarrow> safestrcpy (name lk) namesz = name lk) \<and>
         lockstat_list s' = a # lockstat_list s \<and> lockstat_enable s' = lockstat_enable s \<and>
         registry_wf s' \<and> registry_free s'))"
proof (intro conjI impI)
  assume "stat lk \<noteq> None"
  then show "lockstat_init dbg c namesz km (lk, s) = Panic ''initlockstat''"
    by (simp add: lockstat_init_def)
next
  assume "stat lk = None"
  then show "lockstat_init dbg c namesz None (lk, s) = Ret (lk, s)"
    by (simp add: lockstat_init_def)
next
  assume a: "stat lk = None \<and> a \<notin> dom (kmem s) \<and> registry_wf s \<and> registry_free s"
  then have nolink: "stat lk = None" and fresh: "a \<notin> dom (kmem s)"
    and wf: "registry_wf s" and free: "registry_free s" by simp_all
  from lockstat_init_success [OF nolink wf free, of dbg c namesz a] obtain s' where
    r: "lockstat_init dbg c namesz (Some a) (lk, s) = Ret (lk\<lparr>stat := Some a\<rparr>, s')"
    and m: "kmem s' = (kmem s)(a \<mapsto> \<lparr>active = 1,
           lstat = \<lparr>s_name = safestrcpy (name lk) namesz, s_cpu = (\<lambda>_. \<lparr>acquires = 0\<rparr>)\<rparr>\<rparr>)"
    and l: "lockstat_list s' = a # lockstat_list s" and e: "lockstat_enable s' = lockstat_enable s"
    and k: "locked (lockstat_lock s') = 0" "stat (lockstat_lock s') = None"
    by blast
  have wf': "registry_wf s'"
    using wf fresh l m k by (auto simp: registry_wf_iff)
  have free': "registry_free s'" using k by (simp add: registry_free_def)
  have nm: "length (name lk) < namesz \<longrightarrow> safestrcpy (name lk) namesz = name lk"
    by (simp add: safestrcpy_def)
  show "\<exists>s'. lockstat_init dbg c namesz (Some a) (lk, s) = Ret (lk\<lparr>stat := Some a\<rparr>, s') \<and>
         kmem s' = (kmem s)(a \<mapsto> \<lparr>active = 1,
            lstat = \<lparr>s_name = safestrcpy (name lk) namesz, s_cpu = (\<lambda>_. \<lparr>acquires = 0\<rparr>)\<rparr>\<rparr>) \<and>
         (length (name lk) < namesz \<longrightarrow> safestrcpy (name lk) namesz = name lk) \<and>
         lockstat_list s' = a # lockstat_list s \<and> lockstat_enable s' = lockstat_enable s \<and>
         registry_wf s' \<and> registry_free s'"
    using r m l e wf' free' nm by blast
qed

text \<open>
  On the registry of two records: a lock that is tracked already; a failed allocation;
  and a new record at the fresh address 3 for the lock \<open>ftable_lock\<close>.
\<close>

theorem lockstat_init_cases_witness:
  "stat (ftable_lock\<lparr>stat := Some 1\<rparr>) \<noteq> None \<and>
   lockstat_init True 0 16 (Some 3) (ftable_lock\<lparr>stat := Some 1\<rparr>, two_records) = Panic ''initlockstat'' \<and>
   stat ftable_lock = None \<and>
   lockstat_init True 0 16 None (ftable_lock, two_records) = Ret (ftable_lock, two_records) \<and>
   3 \<notin> dom (kmem two_records) \<and> registry_wf two_records \<and> registry_free two_records \<and>
   (\<exists>s'. lockstat_init True 0 16 (Some 3) (ftable_lock, two_records) = Ret (ftable_lock\<lparr>stat := Some 3\<rparr>, s') \<and>
      kmem s' 3 = Some \<lparr>active = 1, lstat = \<lparr>s_name = ''ftable'', s_cpu = (\<lambda>_. \<lparr>acquires = 0\<rparr>)\<rparr>\<rparr> \<and>
      lockstat_list s' = [3, 2, 1])"
proof -
  have h1: "stat (ftable_lock\<lparr>stat := Some 1\<rparr>) \<noteq> None" by simp
  have h2: "stat ftable_lock = None" by (simp add: ftable_lock_def)
  have h3: "3 \<notin> dom (kmem two_records)" by (simp add: two_records_def boot_def)
  note wf = registry_wf_two_records
  note t1 = lockstat_init_cases [of "ftable_lock\<lparr>stat := Some 1\<rparr>" True 0 16 "Some 3" two_records 3]
  note t2 = lockstat_init_cases [of ftable_lock True 0 16 None two_records 3]
  from t1 h1 have p: "lockstat_init True 0 16 (Some 3) (ftable_lock\<lparr>stat := Some 1\<rparr>, two_records) =
      Panic ''initlockstat''" by blast
  from t2 h2 have n: "lockstat_init True 0 16 None (ftable_lock, two_records) = Ret (ftable_lock, two_records)"
    by blast
  from t2 h2 h3 wf obtain s' where
    r: "lockstat_init True 0 16 (Some 3) (ftable_lock, two_records) = Ret (ftable_lock\<lparr>stat := Some 3\<rparr>, s')"
    and m: "kmem s' = (kmem two_records)(3 \<mapsto> \<lparr>active = 1,
            lstat = \<lparr>s_name = safestrcpy (name ftable_lock) 16, s_cpu = (\<lambda>_. \<lparr>acquires = 0\<rparr>)\<rparr>\<rparr>)"
    and l: "lockstat_list s' = 3 # lockstat_list two_records"
    by blast
  have m3: "kmem s' 3 = Some \<lparr>active = 1, lstat = \<lparr>s_name = ''ftable'', s_cpu = (\<lambda>_. \<lparr>acquires = 0\<rparr>)\<rparr>\<rparr>"
    using m by (simp add: safestrcpy_def ftable_lock_def)
  have l3: "lockstat_list s' = [3, 2, 1]" using l by (simp add: two_records_def)
  from h1 p h2 n h3 wf r m3 l3 show ?thesis by blast
qed

text \<open>
  C9. Running \<^verbatim>\<open>lockstat_stop\<close> twice in a row gives the same lock and the same
  state as running it once (the second call finds the link null); on a lock with no
  record a call changes nothing.
\<close>

theorem lockstat_stop_idempotent:
  "obind (lockstat_stop (lk, s)) lockstat_stop = lockstat_stop (lk, s) \<and>
   (stat lk = None \<longrightarrow> lockstat_stop (lk, s) = Ret (lk, s))"
  by (auto simp: lockstat_stop_def split: option.splits)

text \<open>
  On the registry of two records: stopping the tracked lock marks record 1 inactive and
  clears the link, and a second call changes nothing more; an untracked lock is left alone.
\<close>

theorem lockstat_stop_idempotent_witness:
  "lockstat_stop (ftable_lock\<lparr>stat := Some 1\<rparr>, two_records) =
     Ret (ftable_lock, two_records\<lparr>kmem := [1 \<mapsto> rec_tracked\<lparr>active := 0\<rparr>, 2 \<mapsto> rec_detached]\<rparr>) \<and>
   obind (lockstat_stop (ftable_lock\<lparr>stat := Some 1\<rparr>, two_records)) lockstat_stop =
     Ret (ftable_lock, two_records\<lparr>kmem := [1 \<mapsto> rec_tracked\<lparr>active := 0\<rparr>, 2 \<mapsto> rec_detached]\<rparr>) \<and>
   stat ftable_lock = None \<and>
   lockstat_stop (ftable_lock, two_records) = Ret (ftable_lock, two_records)"
proof -
  have once: "lockstat_stop (ftable_lock\<lparr>stat := Some 1\<rparr>, two_records) =
     Ret (ftable_lock, two_records\<lparr>kmem := [1 \<mapsto> rec_tracked\<lparr>active := 0\<rparr>, 2 \<mapsto> rec_detached]\<rparr>)"
    by (simp add: lockstat_stop_def two_records_def ftable_lock_def fun_upd_twist)
  have h: "stat ftable_lock = None" by (simp add: ftable_lock_def)
  from lockstat_stop_idempotent [of "ftable_lock\<lparr>stat := Some 1\<rparr>" two_records]
    lockstat_stop_idempotent [of ftable_lock two_records] once h
  show ?thesis by simp
qed

subsection \<open>Acquiring: the exchange and the counters\<close>

lemma locked_hook_off:
  "lockstat_enable s = 0 \<or> stat lk = None \<Longrightarrow>
   locked_hook dbg c (lk, s) = Ret (if dbg then lk\<lparr>cpu := Some c\<rparr> else lk, s)"
  by (auto simp: locked_hook_def Let_def)

lemma locked_hook_on:
  "lockstat_enable s \<noteq> 0 \<Longrightarrow> stat lk = Some a \<Longrightarrow> kmem s a = Some k \<Longrightarrow>
   locked_hook dbg c (lk, s) =
     Ret (if dbg then lk\<lparr>cpu := Some c\<rparr> else lk,
          s\<lparr>kmem := (kmem s)(a \<mapsto> k\<lparr>lstat := (lstat k)\<lparr>s_cpu :=
                 (s_cpu (lstat k))(c := (s_cpu (lstat k) c)\<lparr>acquires := acquires (s_cpu (lstat k) c) + 1\<rparr>)\<rparr>\<rparr>)\<rparr>)"
  by (auto simp: locked_hook_def Let_def)

lemma acquire_Ret_free: "acquire dbg c (lk, s) = Ret r \<Longrightarrow> locked lk = 0"
  by (rule ccontr) (simp add: acquire_held split: if_splits)

lemma tryacquire_free:
  "locked lk = 0 \<Longrightarrow>
   tryacquire dbg c (lk, s) =
     obind (locked_hook dbg c (lk\<lparr>locked := 1\<rparr>, (pushcli c s)\<lparr>xchgs := xchgs s + 1\<rparr>)) (\<lambda>r. Ret (1, r))"
  by (simp add: tryacquire_def locking_def holding_def xchg32_def pushcli_fields)

lemma tryacquire_held:
  "locked lk \<noteq> 0 \<Longrightarrow>
   tryacquire dbg c (lk, s) =
     (if dbg \<and> cpu lk = Some c then Panic ''acquire''
      else obind (popcli c ((pushcli c s)\<lparr>xchgs := xchgs s + 1\<rparr>)) (\<lambda>s3. Ret (0, lk\<lparr>locked := 1\<rparr>, s3)))"
  by (simp add: tryacquire_def locking_def holding_def xchg32_def pushcli_fields)

lemma tryacquire_one_free: "tryacquire dbg c (lk, s) = Ret (1, r) \<Longrightarrow> locked lk = 0"
  by (rule ccontr) (auto simp: tryacquire_held popcli_def Let_def split: if_splits)

lemma acquired_kmem_off:
  assumes off: "lockstat_enable s = 0 \<or> stat lk = None"
    and got: "acquire dbg c (lk, s) = Ret (lk', s') \<or> tryacquire dbg c (lk, s) = Ret (1, lk', s')"
  shows "kmem s' = kmem s"
proof -
  from got have free: "locked lk = 0" by (auto dest: acquire_Ret_free tryacquire_one_free)
  let ?s1 = "(pushcli c s)\<lparr>xchgs := xchgs s + 1\<rparr>"
  from off have "lockstat_enable ?s1 = 0 \<or> stat (lk\<lparr>locked := 1\<rparr>) = None"
    by (simp add: pushcli_fields)
  from locked_hook_off [OF this] got free show ?thesis
    by (auto simp: acquire_free tryacquire_free pushcli_fields)
qed

lemma acquired_kmem_on:
  assumes on: "lockstat_enable s \<noteq> 0" and link: "stat lk = Some a" and live: "kmem s a = Some k"
    and got: "acquire dbg c (lk, s) = Ret (lk', s') \<or> tryacquire dbg c (lk, s) = Ret (1, lk', s')"
  shows "kmem s' = (kmem s)(a \<mapsto> k\<lparr>lstat := (lstat k)\<lparr>s_cpu :=
            (s_cpu (lstat k))(c := (s_cpu (lstat k) c)\<lparr>acquires := acquires (s_cpu (lstat k) c) + 1\<rparr>)\<rparr>\<rparr>)"
proof -
  from got have free: "locked lk = 0" by (auto dest: acquire_Ret_free tryacquire_one_free)
  let ?s1 = "(pushcli c s)\<lparr>xchgs := xchgs s + 1\<rparr>"
  have "lockstat_enable ?s1 \<noteq> 0" "stat (lk\<lparr>locked := 1\<rparr>) = Some a" "kmem ?s1 a = Some k"
    using on link live by (simp_all add: pushcli_fields)
  from locked_hook_on [OF this] got free show ?thesis
    by (auto simp: acquire_free tryacquire_free pushcli_fields)
qed

lemma sint_byte_digit:
  "(sint (b :: u8) = 48) = (b = 48)" "(sint b = 49) = (b = 49)" "(sint b = 50) = (b = 50)"
proof -
  have inj: "\<And>d :: u8. sint b = sint d \<Longrightarrow> b = d" by (rule signed_word_eqI)
  show "(sint b = 48) = (b = 48)" using inj [of 48] by auto
  show "(sint b = 49) = (b = 49)" using inj [of 49] by auto
  show "(sint b = 50) = (b = 50)" using inj [of 50] by auto
qed

lemma lockstat_write_cases:
  "lockstat_write dbg c (b # bs) n s =
     (if b = 48 then Ret (sint n, s\<lparr>lockstat_enable := 1\<rparr>)
      else if b = 49 then Ret (sint n, s\<lparr>lockstat_enable := 0\<rparr>)
      else if b = 50 then obind (lockstat_clear dbg c s) (\<lambda>s'. Ret (sint n, s'))
      else Ret (- 1, s))"
  by (simp add: lockstat_write_def Let_def LOCKSTAT_START_def LOCKSTAT_STOP_def LOCKSTAT_CLEAR_def
      sint_byte_digit)

lemma sint_u32_small:
  assumes "unat (n :: u32) < 2 ^ 31"
  shows "sint n = int (unat n)"
proof -
  have "int (unat n) < int (2 ^ 31)" using assms by (rule iffD2 [OF of_nat_less_iff])
  then have lt: "uint n < 2 ^ 31" by (simp only: uint_nat of_nat_power of_nat_numeral)
  have ge: "- (2 ^ 31) \<le> uint n" by (rule order_trans [of _ 0]) simp_all
  from ge lt have "signed_take_bit 31 (uint n) = uint n"
    by (rule signed_take_bit_int_eq_self)
  then show ?thesis by (simp add: sint_uint)
qed

text \<open>
  C8. A successful acquisition (\<^verbatim>\<open>acquire\<close> returning, or \<^verbatim>\<open>tryacquire\<close> returning
  1) made while collection is off, or on a lock with no record, leaves every record as it
  was. The stop command (\<^verbatim>\<open>'1'\<close>) and the start command (\<^verbatim>\<open>'0'\<close>) change
  \<^verbatim>\<open>lockstat_enable\<close> and nothing else, so the counters keep their values. With collection
  on, a successful acquisition of a tracked lock changes one thing in the heap: the counter
  of the current CPU in the lock's record is its previous value plus one.
\<close>

theorem lockstat_gating:
  "((lockstat_enable s = 0 \<or> stat lk = None) \<and>
    (acquire dbg c (lk, s) = Ret (lk', s') \<or> tryacquire dbg c (lk, s) = Ret (1, lk', s'))
      \<longrightarrow> kmem s' = kmem s) \<and>
   lockstat_write dbg c (49 # bs) n s = Ret (sint n, s\<lparr>lockstat_enable := 0\<rparr>) \<and>
   lockstat_write dbg c (48 # bs) n s = Ret (sint n, s\<lparr>lockstat_enable := 1\<rparr>) \<and>
   (lockstat_enable s \<noteq> 0 \<and> stat lk = Some a \<and> kmem s a = Some k \<and>
    (acquire dbg c (lk, s) = Ret (lk', s') \<or> tryacquire dbg c (lk, s) = Ret (1, lk', s'))
      \<longrightarrow> kmem s' = (kmem s)(a \<mapsto> k\<lparr>lstat := (lstat k)\<lparr>s_cpu :=
            (s_cpu (lstat k))(c := (s_cpu (lstat k) c)\<lparr>acquires := acquires (s_cpu (lstat k) c) + 1\<rparr>)\<rparr>\<rparr>))"
proof (intro conjI impI)
  assume "(lockstat_enable s = 0 \<or> stat lk = None) \<and>
    (acquire dbg c (lk, s) = Ret (lk', s') \<or> tryacquire dbg c (lk, s) = Ret (1, lk', s'))"
  then show "kmem s' = kmem s" by (blast intro: acquired_kmem_off)
next
  show "lockstat_write dbg c (49 # bs) n s = Ret (sint n, s\<lparr>lockstat_enable := 0\<rparr>)"
    by (simp add: lockstat_write_cases)
next
  show "lockstat_write dbg c (48 # bs) n s = Ret (sint n, s\<lparr>lockstat_enable := 1\<rparr>)"
    by (simp add: lockstat_write_cases)
next
  assume "lockstat_enable s \<noteq> 0 \<and> stat lk = Some a \<and> kmem s a = Some k \<and>
    (acquire dbg c (lk, s) = Ret (lk', s') \<or> tryacquire dbg c (lk, s) = Ret (1, lk', s'))"
  then show "kmem s' = (kmem s)(a \<mapsto> k\<lparr>lstat := (lstat k)\<lparr>s_cpu :=
            (s_cpu (lstat k))(c := (s_cpu (lstat k) c)\<lparr>acquires := acquires (s_cpu (lstat k) c) + 1\<rparr>)\<rparr>\<rparr>)"
    by (blast intro: acquired_kmem_on)
qed

text \<open>
  On the registry of two records, where CPU 0 has counted 5 acquisitions of the tracked
  lock: with collection off an acquisition by CPU 0 leaves the heap as it is; after the
  start command the next acquisition makes the counter 6.
\<close>

theorem lockstat_gating_witness:
  "lockstat_enable two_records = 0 \<and>
   acquire False 0 (ftable_lock\<lparr>stat := Some 1\<rparr>, two_records) =
     Ret (ftable_lock\<lparr>stat := Some 1, locked := 1\<rparr>, (pushcli 0 two_records)\<lparr>xchgs := 1\<rparr>) \<and>
   kmem ((pushcli 0 two_records)\<lparr>xchgs := 1\<rparr>) = kmem two_records \<and>
   lockstat_write False 0 [48] 1 two_records = Ret (1, two_records\<lparr>lockstat_enable := 1\<rparr>) \<and>
   kmem (two_records\<lparr>lockstat_enable := 1\<rparr>) 1 = Some rec_tracked \<and>
   acquires (s_cpu (lstat rec_tracked) 0) = 5 \<and>
   (\<exists>lk' s'. acquire False 0 (ftable_lock\<lparr>stat := Some 1\<rparr>, two_records\<lparr>lockstat_enable := 1\<rparr>) = Ret (lk', s') \<and>
      kmem s' 2 = Some rec_detached \<and>
      kmem s' 1 = Some (rec_tracked\<lparr>lstat := (lstat rec_tracked)\<lparr>s_cpu :=
                     (s_cpu (lstat rec_tracked))(0 := \<lparr>acquires = 6\<rparr>)\<rparr>\<rparr>))"
proof -
  let ?T = "ftable_lock\<lparr>stat := Some 1\<rparr>"
  let ?E = "two_records\<lparr>lockstat_enable := 1\<rparr>"
  let ?S1 = "(pushcli 0 two_records)\<lparr>xchgs := 1\<rparr>"
  have off: "lockstat_enable two_records = 0" by (simp add: two_records_def boot_def)
  have a1: "acquire False 0 (?T, two_records) = Ret (?T\<lparr>locked := 1\<rparr>, ?S1)"
    by (simp add: acquire_free locked_hook_off pushcli_fields ftable_lock_def two_records_def boot_def)
  note g1 = lockstat_gating [of two_records ?T False 0 "?T\<lparr>locked := 1\<rparr>" ?S1 "[]" 1 1 rec_tracked]
  from g1 off a1 have k1: "kmem ?S1 = kmem two_records" by blast
  from g1 have w: "lockstat_write False 0 [48] 1 two_records = Ret (1, ?E)" by simp
  have live: "kmem ?E 1 = Some rec_tracked" by (simp add: two_records_def)
  have cnt: "acquires (s_cpu (lstat rec_tracked) 0) = 5" by (simp add: rec_tracked_def)
  obtain lk' s' where a2: "acquire False 0 (?T, ?E) = Ret (lk', s')"
    using live by (simp add: acquire_free locked_hook_on [where a = 1] pushcli_fields ftable_lock_def)
  note g2 = lockstat_gating [of ?E ?T False 0 lk' s' "[]" 1 1 rec_tracked]
  from g2 a2 live have k2: "kmem s' = (kmem ?E)(1 \<mapsto> rec_tracked\<lparr>lstat := (lstat rec_tracked)\<lparr>s_cpu :=
            (s_cpu (lstat rec_tracked))(0 := (s_cpu (lstat rec_tracked) 0)\<lparr>acquires := acquires (s_cpu (lstat rec_tracked) 0) + 1\<rparr>)\<rparr>\<rparr>)"
    by simp
  have r2: "kmem s' 2 = Some rec_detached" using k2 by (simp add: two_records_def)
  have r1: "kmem s' 1 = Some (rec_tracked\<lparr>lstat := (lstat rec_tracked)\<lparr>s_cpu :=
                     (s_cpu (lstat rec_tracked))(0 := \<lparr>acquires = 6\<rparr>)\<rparr>\<rparr>)"
    using k2 by (simp add: rec_tracked_def)
  from off a1 k1 w live cnt a2 r1 r2 show ?thesis by (simp add: ftable_lock_def)
qed

text \<open>
  C2, as stated, fails in a debug build: CPU 0 acquires the lock, and its
  \<^verbatim>\<open>tryacquire\<close> on the same lock then panics in \<^verbatim>\<open>locking\<close> before any exchange.
\<close>

theorem tryacquire_debug_panics:
  "acquire True 0 (ftable_lock, boot) =
     Ret (ftable_lock\<lparr>locked := 1, cpu := Some 0\<rparr>, (pushcli 0 boot)\<lparr>xchgs := 1\<rparr>) \<and>
   tryacquire True 0 (ftable_lock\<lparr>locked := 1, cpu := Some 0\<rparr>, (pushcli 0 boot)\<lparr>xchgs := 1\<rparr>) =
     Panic ''acquire''"
  by (simp add: acquire_free tryacquire_held locked_hook_off pushcli_fields ftable_lock_def boot_def)

text \<open>
  C2, amended. \<^verbatim>\<open>tryacquire\<close> has no loop. In a debug build, on a lock that the
  calling CPU holds, it panics before any exchange. In every other case it returns after
  exactly one exchange: if the exchange read 0 it returns 1, the lock word is 1 (and, in
  a debug build, the caller is the recorded holder) and the nesting depth is one more
  than before; if the exchange read a nonzero value it returns 0, the lock word is 1, and
  the nesting depth of the calling CPU, the registry and the heap are as before the call.
\<close>

theorem tryacquire_single_exchange:
  assumes "link_ok s lk"
  shows "(dbg \<and> holding c lk \<longrightarrow> tryacquire dbg c (lk, s) = Panic ''acquire'') \<and>
     (\<not> (dbg \<and> holding c lk) \<longrightarrow>
        (\<exists>r lk' s'. tryacquire dbg c (lk, s) = Ret (r, lk', s') \<and> xchgs s' = xchgs s + 1 \<and>
           (locked lk = 0 \<longrightarrow>
              r = 1 \<and> locked lk' = 1 \<and> (dbg \<longrightarrow> holding c lk') \<and>
              ncli (cpus s' c) = ncli (cpus s c) + 1) \<and>
           (locked lk \<noteq> 0 \<longrightarrow>
              r = 0 \<and> lk' = lk\<lparr>locked := 1\<rparr> \<and> ncli (cpus s' c) = ncli (cpus s c) \<and>
              kmem s' = kmem s \<and> lockstat_list s' = lockstat_list s \<and>
              lockstat_enable s' = lockstat_enable s)))"
proof (intro conjI impI)
  assume "dbg \<and> holding c lk"
  then show "tryacquire dbg c (lk, s) = Panic ''acquire''"
    by (simp add: tryacquire_def locking_def)
next
  assume nh: "\<not> (dbg \<and> holding c lk)"
  show "\<exists>r lk' s'. tryacquire dbg c (lk, s) = Ret (r, lk', s') \<and> xchgs s' = xchgs s + 1 \<and>
           (locked lk = 0 \<longrightarrow>
              r = 1 \<and> locked lk' = 1 \<and> (dbg \<longrightarrow> holding c lk') \<and>
              ncli (cpus s' c) = ncli (cpus s c) + 1) \<and>
           (locked lk \<noteq> 0 \<longrightarrow>
              r = 0 \<and> lk' = lk\<lparr>locked := 1\<rparr> \<and> ncli (cpus s' c) = ncli (cpus s c) \<and>
              kmem s' = kmem s \<and> lockstat_list s' = lockstat_list s \<and>
              lockstat_enable s' = lockstat_enable s)"
  proof (cases "locked lk = 0")
    case True
    let ?s1 = "(pushcli c s)\<lparr>xchgs := xchgs s + 1\<rparr>"
    let ?lk1 = "if dbg then lk\<lparr>locked := 1, cpu := Some c\<rparr> else lk\<lparr>locked := 1\<rparr>"
    show ?thesis
    proof (cases "lockstat_enable s \<noteq> 0 \<and> stat lk \<noteq> None")
      case False
      then have "lockstat_enable ?s1 = 0 \<or> stat (lk\<lparr>locked := 1\<rparr>) = None"
        by (auto simp: pushcli_fields)
      from locked_hook_off [OF this, of dbg c] True
      have "tryacquire dbg c (lk, s) = Ret (1, ?lk1, ?s1)"
        by (simp add: tryacquire_free)
      with True show ?thesis by (simp add: pushcli_fields holding_def)
    next
      case on: True
      then obtain a where a: "stat lk = Some a" by auto
      with assms obtain k where k: "kmem s a = Some k" by (auto simp: link_ok_iff)
      have "lockstat_enable ?s1 \<noteq> 0" "stat (lk\<lparr>locked := 1\<rparr>) = Some a" "kmem ?s1 a = Some k"
        using on a k by (simp_all add: pushcli_fields)
      from locked_hook_on [OF this, of dbg c] True
      obtain m where "tryacquire dbg c (lk, s) = Ret (1, ?lk1, ?s1\<lparr>kmem := m\<rparr>)"
        by (simp add: tryacquire_free pushcli_fields)
      with True show ?thesis by (simp add: pushcli_fields holding_def)
    qed
  next
    case False
    with nh have who: "\<not> (dbg \<and> cpu lk = Some c)" by (simp add: holding_def)
    let ?s1 = "(pushcli c s)\<lparr>xchgs := xchgs s + 1\<rparr>"
    have "0 < ncli (cpus ?s1 c)" by (simp add: pushcli_fields)
    then obtain s3 where pop: "popcli c ?s1 = Ret s3" and d: "ncli (cpus s3 c) = ncli (cpus s c)"
      and fr: "kmem s3 = kmem s" "lockstat_list s3 = lockstat_list s"
        "lockstat_enable s3 = lockstat_enable s" "xchgs s3 = xchgs s + 1"
      by (simp add: popcli_def Let_def pushcli_fields)
    from False who pop have "tryacquire dbg c (lk, s) = Ret (0, lk\<lparr>locked := 1\<rparr>, s3)"
      by (simp add: tryacquire_held)
    with False d fr show ?thesis by simp
  qed
qed

text \<open>
  From boot: CPU 0 takes the free lock with one exchange; in a debug build a second
  \<^verbatim>\<open>tryacquire\<close> by CPU 0 panics; CPU 1 gets 0 and keeps its nesting depth.
\<close>

theorem tryacquire_single_exchange_witness:
  "link_ok boot ftable_lock \<and> locked ftable_lock = 0 \<and>
   (\<exists>lk' s'. tryacquire True 0 (ftable_lock, boot) = Ret (1, lk', s') \<and> xchgs s' = xchgs boot + 1 \<and>
      locked lk' = 1 \<and> holding 0 lk' \<and> ncli (cpus s' 0) = ncli (cpus boot 0) + 1) \<and>
   holding 0 (ftable_lock\<lparr>locked := 1, cpu := Some 0\<rparr>) \<and>
   tryacquire True 0 (ftable_lock\<lparr>locked := 1, cpu := Some 0\<rparr>, boot) = Panic ''acquire'' \<and>
   locked (ftable_lock\<lparr>locked := 1, cpu := Some 0\<rparr>) \<noteq> 0 \<and>
   (\<exists>lk' s'. tryacquire True 1 (ftable_lock\<lparr>locked := 1, cpu := Some 0\<rparr>, boot) = Ret (0, lk', s') \<and>
      xchgs s' = xchgs boot + 1 \<and> ncli (cpus s' 1) = ncli (cpus boot 1))"
proof -
  let ?H = "ftable_lock\<lparr>locked := 1, cpu := Some 0\<rparr>"
  have l1: "link_ok boot ftable_lock" and l2: "link_ok boot ?H"
    by (simp_all add: link_ok_iff ftable_lock_def)
  have f: "locked ftable_lock = 0" and nh: "\<not> (True \<and> holding 0 ftable_lock)"
    by (simp_all add: ftable_lock_def holding_def)
  have h: "holding 0 ?H" and nh1: "\<not> (True \<and> holding 1 ?H)" and hl: "locked ?H \<noteq> 0"
    by (simp_all add: holding_def)
  from tryacquire_single_exchange [OF l1, of True 0] f nh
  have p1: "\<exists>lk' s'. tryacquire True 0 (ftable_lock, boot) = Ret (1, lk', s') \<and> xchgs s' = xchgs boot + 1 \<and>
      locked lk' = 1 \<and> holding 0 lk' \<and> ncli (cpus s' 0) = ncli (cpus boot 0) + 1"
    by auto
  from tryacquire_single_exchange [OF l2, of True 0] h
  have p2: "tryacquire True 0 (?H, boot) = Panic ''acquire''" by blast
  from tryacquire_single_exchange [OF l2, of True 1] nh1 hl
  have p3: "\<exists>lk' s'. tryacquire True 1 (?H, boot) = Ret (0, lk', s') \<and>
      xchgs s' = xchgs boot + 1 \<and> ncli (cpus s' 1) = ncli (cpus boot 1)"
    by auto
  from l1 f p1 h p2 hl p3 show ?thesis by blast
qed

text \<open>
  C3, as stated, fails: a write whose first byte is 0 is rejected and changes nothing,
  and a write whose first byte is 48 is a start command.
\<close>

theorem lockstat_write_byte_zero:
  "lockstat_write False 0 [0] 1 boot = Ret (- 1, boot) \<and> lockstat_enable boot = 0 \<and>
   lockstat_write False 0 [48] 1 boot = Ret (1, boot\<lparr>lockstat_enable := 1\<rparr>)"
  by (simp add: lockstat_write_cases boot_def)

text \<open>
  C3, amended. The command is the first byte minus \<^verbatim>\<open>'0'\<close>: the byte 48 (the character
  \<^verbatim>\<open>'0'\<close>) sets \<^verbatim>\<open>lockstat_enable\<close> to 1, the byte 49 sets it to 0, and neither
  changes anything else; the byte 50 runs \<^verbatim>\<open>lockstat_clear\<close>, which returns when the
  registry lock is free on entry; any other first byte gives -1 and changes nothing. For
  the three commands the value returned is \<open>n\<close> seen through the \<^verbatim>\<open>int\<close> return
  type, which is the count itself when it is below \<open>2 ^ 31\<close>.
\<close>

theorem lockstat_write_dispatch:
  "lockstat_write dbg c (b # bs) n s =
     (if b = 48 then Ret (sint n, s\<lparr>lockstat_enable := 1\<rparr>)
      else if b = 49 then Ret (sint n, s\<lparr>lockstat_enable := 0\<rparr>)
      else if b = 50 then obind (lockstat_clear dbg c s) (\<lambda>s'. Ret (sint n, s'))
      else Ret (- 1, s)) \<and>
   (registry_wf s \<and> registry_free s \<longrightarrow>
      (\<exists>s'. lockstat_clear dbg c s = Ret s' \<and> lockstat_write dbg c (50 # bs) n s = Ret (sint n, s'))) \<and>
   (unat n < 2 ^ 31 \<longrightarrow> sint n = int (unat n))"
proof (intro conjI impI)
  show "lockstat_write dbg c (b # bs) n s =
     (if b = 48 then Ret (sint n, s\<lparr>lockstat_enable := 1\<rparr>)
      else if b = 49 then Ret (sint n, s\<lparr>lockstat_enable := 0\<rparr>)
      else if b = 50 then obind (lockstat_clear dbg c s) (\<lambda>s'. Ret (sint n, s'))
      else Ret (- 1, s))"
    by (rule lockstat_write_cases)
next
  assume "registry_wf s \<and> registry_free s"
  then obtain s' where "lockstat_clear dbg c s = Ret s'"
    using lockstat_clear_result [of s dbg c] by blast
  then show "\<exists>s'. lockstat_clear dbg c s = Ret s' \<and> lockstat_write dbg c (50 # bs) n s = Ret (sint n, s')"
    by (simp add: lockstat_write_cases)
next
  assume "unat n < 2 ^ 31"
  then show "sint n = int (unat n)"
    by (rule sint_u32_small)
qed

text \<open>
  On the registry of two records: the clear command sweeps and returns the count 7; the
  start command returns the count 2; the byte \<^verbatim>\<open>'x'\<close> is rejected.
\<close>

theorem lockstat_write_dispatch_witness:
  "registry_wf two_records \<and> registry_free two_records \<and>
   (\<exists>s'. lockstat_clear True 0 two_records = Ret s' \<and>
      lockstat_write True 0 [50] 7 two_records = Ret (7, s')) \<and>
   unat (7 :: u32) < 2 ^ 31 \<and> sint (7 :: u32) = int (unat (7 :: u32)) \<and>
   lockstat_write True 0 [48, 10] 2 two_records = Ret (2, two_records\<lparr>lockstat_enable := 1\<rparr>) \<and>
   lockstat_write True 0 [120] 1 two_records = Ret (- 1, two_records)"
proof -
  note wf = registry_wf_two_records
  note t = lockstat_write_dispatch [of True 0 50 "[]" 7 two_records]
  from t wf have p1: "\<exists>s'. lockstat_clear True 0 two_records = Ret s' \<and>
      lockstat_write True 0 [50] 7 two_records = Ret (sint (7 :: u32), s')" by blast
  have h: "unat (7 :: u32) < 2 ^ 31" by simp
  from t h have p2: "sint (7 :: u32) = int (unat (7 :: u32))" by blast
  from lockstat_write_dispatch [of True 0 48 "[10]" 2 two_records]
  have p3: "lockstat_write True 0 [48, 10] 2 two_records = Ret (2, two_records\<lparr>lockstat_enable := 1\<rparr>)"
    by simp
  from lockstat_write_dispatch [of True 0 120 "[]" 1 two_records]
  have p4: "lockstat_write True 0 [120] 1 two_records = Ret (- 1, two_records)"
    by simp
  from p1 have p1': "\<exists>s'. lockstat_clear True 0 two_records = Ret s' \<and>
      lockstat_write True 0 [50] 7 two_records = Ret (7, s')" by simp
  from wf p1' h p2 p3 p4 show ?thesis by blast
qed

subsection \<open>Reading the registry\<close>

lemma bytes_copied_simps:
  "bytes_copied [] = 0" "bytes_copied (out @ [(d, r, len)]) = bytes_copied out + len"
  by (simp_all add: bytes_copied_def)

lemma read_loop_entries:
  "read_loop sz off m as (dst, n, cur, out) = Ret (dst', n', cur', out') \<Longrightarrow>
   \<exists>ks. out' = out @ ks \<and> (\<forall>e \<in> set ks. snd (snd e) = unat sz)"
proof (induction as arbitrary: dst n cur out)
  case Nil
  then show ?case by simp
next
  case (Cons a as)
  show ?case
  proof (cases "(ucast n :: u64) < sz")
    case True
    with Cons.prems show ?thesis by simp
  next
    case False
    with Cons.prems obtain k where k: "m a = Some k" by (auto split: option.splits)
    show ?thesis
    proof (cases "off \<le> cur")
      case True
      with Cons.prems False k
      have "read_loop sz off m as (dst + unat sz, n - ucast sz, cur + ucast sz, out @ [(dst, lstat k, unat sz)]) =
              Ret (dst', n', cur', out')" by simp
      from Cons.IH [OF this] obtain ks where
        "out' = (out @ [(dst, lstat k, unat sz)]) @ ks" "\<forall>e \<in> set ks. snd (snd e) = unat sz" by blast
      then have "out' = out @ ((dst, lstat k, unat sz) # ks) \<and>
          (\<forall>e \<in> set ((dst, lstat k, unat sz) # ks). snd (snd e) = unat sz)" by simp
      then show ?thesis by blast
    next
      case nc: False
      with Cons.prems False k
      have "read_loop sz off m as (dst, n, cur + ucast sz, out) = Ret (dst', n', cur', out')" by simp
      from Cons.IH [OF this] show ?thesis .
    qed
  qed
qed

lemma bytes_copied_whole:
  "\<forall>e \<in> set ks. snd (snd e) = z \<Longrightarrow> bytes_copied ks = length ks * z"
  by (induction ks) (auto simp: bytes_copied_def)

lemma read_loop_returns:
  "set as \<subseteq> dom m \<Longrightarrow> \<exists>st'. read_loop sz off m as (dst, n, cur, out) = Ret st'"
  by (induction as arbitrary: dst n cur out) auto

lemma read_loop_count:
  assumes "0 < unat sz" and "unat sz dvd unat off" and "unat sz dvd unat cur"
    and "unat cur + length as * unat sz < 2 ^ 32"
    and "read_loop sz off m as (dst, n, cur, out) = Ret (dst', n', cur', out')"
  shows "bytes_copied out' + max (unat cur) (unat off) = bytes_copied out + max (unat cur') (unat off) \<and>
         unat cur \<le> unat cur' \<and> unat cur' \<le> unat cur + length as * unat sz \<and>
         (unat cur + length as * unat sz \<le> unat off \<longrightarrow> out' = out)"
  using assms
proof (induction as arbitrary: dst n cur out)
  case Nil
  then show ?case by simp
next
  case (Cons a as)
  let ?z = "unat sz"
  show ?case
  proof (cases "(ucast n :: u64) < sz")
    case True
    with Cons.prems show ?thesis by simp
  next
    case False
    with Cons.prems obtain k where k: "m a = Some k" by (auto split: option.splits)
    from Cons.prems(4) have zs: "?z < 2 ^ 32" and sum: "unat cur + ?z < 2 ^ 32" by simp_all
    have uz: "unat (ucast sz :: u32) = ?z"
      using zs by (simp add: unsigned_ucast_eq take_bit_nat_eq_self)
    have next_cur: "unat (cur + ucast sz) = unat cur + ?z"
      using sum uz by (simp add: unat_add_lem [THEN iffD1])
    have dv: "?z dvd unat (cur + ucast sz)" using Cons.prems(3) by (simp add: next_cur)
    have bd: "unat (cur + ucast sz) + length as * ?z < 2 ^ 32"
      using Cons.prems(4) by (simp add: next_cur)
    show ?thesis
    proof (cases "off \<le> cur")
      case True
      then have le: "unat off \<le> unat cur" by (simp add: word_le_nat_alt)
      from Cons.prems(5) False k True
      have run: "read_loop sz off m as (dst + ?z, n - ucast sz, cur + ucast sz, out @ [(dst, lstat k, ?z)]) =
              Ret (dst', n', cur', out')" by simp
      from Cons.IH [OF Cons.prems(1) Cons.prems(2) dv bd run]
      have ih: "bytes_copied out' + max (unat cur + ?z) (unat off) =
                  bytes_copied out + ?z + max (unat cur') (unat off)"
        "unat cur + ?z \<le> unat cur'" "unat cur' \<le> unat cur + ?z + length as * ?z"
        by (simp_all add: next_cur bytes_copied_simps)
      from ih le Cons.prems(1) show ?thesis by (auto simp: max_def split: if_splits)
    next
      case nc: False
      then have lt: "unat cur < unat off" by (simp add: word_le_nat_alt)
      from Cons.prems(2,3) lt have step: "unat cur + ?z \<le> unat off"
        by (metis Cons.prems(1) dvd_imp_le dvd_diff_nat less_imp_add_positive add.commute
            add_diff_cancel_left' add_le_cancel_left zero_less_diff)
      from Cons.prems(5) False k nc
      have run: "read_loop sz off m as (dst, n, cur + ucast sz, out) = Ret (dst', n', cur', out')" by simp
      from Cons.IH [OF Cons.prems(1) Cons.prems(2) dv bd run]
      have ih: "bytes_copied out' + max (unat cur + ?z) (unat off) =
                  bytes_copied out + max (unat cur') (unat off)"
        "unat cur + ?z \<le> unat cur'" "unat cur' \<le> unat cur + ?z + length as * ?z"
        "unat cur + ?z + length as * ?z \<le> unat off \<longrightarrow> out' = out"
        by (simp_all add: next_cur)
      from ih lt step show ?thesis by (auto simp: max_def add.assoc split: if_splits)
    qed
  qed
qed

lemma lockstat_read_check:
  "((ucast (off :: u32) :: u64) mod sz \<noteq> 0 \<or> (ucast (n :: u32) :: u64) < sz) =
   (\<not> unat sz dvd unat off \<or> unat n < unat sz)"
proof -
  have small: "\<And>w :: u32. unat w < 2 ^ 64"
  proof -
    fix w :: u32
    have "unat w < 2 ^ 32" using unsigned_less [of w] by simp
    then show "unat w < 2 ^ 64" by simp
  qed
  have o: "unat (ucast off :: u64) = unat off" and n: "unat (ucast n :: u64) = unat n"
    using small [of off] small [of n]
    by (simp_all add: unsigned_ucast_eq take_bit_nat_eq_self)
  have "((ucast off :: u64) mod sz = 0) = (unat ((ucast off :: u64) mod sz) = 0)"
    by (simp add: unat_eq_zero)
  also have "\<dots> = (unat sz dvd unat off)"
    by (simp only: unat_mod o) (auto simp: dvd_eq_mod_eq_0)
  finally show ?thesis by (simp add: word_less_nat_alt n)
qed

lemma lockstat_read_run:
  assumes ok: "unat sz dvd unat off" "unat sz \<le> unat n"
    and wf: "registry_wf s" and free: "registry_free s"
  shows "\<exists>dst n' cur out s'.
      read_loop sz off (kmem s) (lockstat_list s) (0, n, 0, []) = Ret (dst, n', cur, out) \<and>
      lockstat_read dbg c sz off n s = Ret (if off \<le> cur then sint (cur - off) else 0, out, s') \<and>
      lockstat_list s' = lockstat_list s \<and> kmem s' = kmem s \<and>
      lockstat_enable s' = lockstat_enable s \<and> locked (lockstat_lock s') = 0"
proof -
  let ?s1 = "s\<lparr>lockstat_lock := (lockstat_lock s)\<lparr>locked := 1, cpu := (if dbg then Some c else cpu (lockstat_lock s))\<rparr>,
                 cpus := cpus (pushcli c s), xchgs := xchgs s + 1\<rparr>"
  from ok have chk: "\<not> ((ucast off :: u64) mod sz \<noteq> 0 \<or> (ucast n :: u64) < sz)"
    by (simp only: lockstat_read_check) simp
  from wf free have acq: "acquire_lockstat_lock dbg c s = Ret ?s1"
    by (simp add: registry_wf_iff registry_free_def acquire_lockstat_lock_free)
  from wf have "set (lockstat_list s) \<subseteq> dom (kmem s)" by (simp add: registry_wf_iff)
  from read_loop_returns [OF this, of sz off 0 n 0 "[]"] obtain dst n' cur out where
    loop: "read_loop sz off (kmem s) (lockstat_list s) (0, n, 0, []) = Ret (dst, n', cur, out)"
    by (metis prod_cases4)
  have "locked (lockstat_lock ?s1) \<noteq> 0" "dbg \<longrightarrow> cpu (lockstat_lock ?s1) = Some c"
    "0 < ncli (cpus ?s1 c)"
    by (simp_all add: pushcli_fields)
  from release_lockstat_lock_held [OF this] obtain s' where
    rel: "release_lockstat_lock dbg c ?s1 = Ret s'"
    and fr: "lockstat_enable s' = lockstat_enable ?s1" "lockstat_list s' = lockstat_list ?s1"
      "kmem s' = kmem ?s1" "locked (lockstat_lock s') = 0"
    by blast
  have "lockstat_read dbg c sz off n s = Ret (if off \<le> cur then sint (cur - off) else 0, out, s')"
    using chk acq loop rel by (simp add: lockstat_read_def)
  with loop fr show ?thesis by auto
qed

lemma lockstat_read_Ret_entries:
  assumes "lockstat_read dbg c sz off n s = Ret (r, out, s')"
  shows "\<forall>e \<in> set out. snd (snd e) = unat sz"
proof (cases "(ucast off :: u64) mod sz \<noteq> 0 \<or> (ucast n :: u64) < sz")
  case True
  with assms show ?thesis by (auto simp: lockstat_read_def)
next
  case False
  with assms obtain s1 where "acquire_lockstat_lock dbg c s = Ret s1"
    by (cases "acquire_lockstat_lock dbg c s") (auto simp: lockstat_read_def)
  with assms False obtain dst n' cur where
    "read_loop sz off (kmem s1) (lockstat_list s1) (0, n, 0, []) = Ret (dst, n', cur, out)"
    by (cases "read_loop sz off (kmem s1) (lockstat_list s1) (0, n, 0, [])";
        cases "release_lockstat_lock dbg c s1")
      (auto simp: lockstat_read_def split: prod.splits)
  from read_loop_entries [OF this] show ?thesis by simp
qed

lemma read_two_records_head:
  "read_loop 144 0 (kmem two_records) (lockstat_list two_records) (0, 200, 0, []) =
     Ret (144, 56, 144, [(0, lstat rec_detached, 144)])"
  by (simp add: two_records_def boot_def)

lemma read_two_records_end:
  "read_loop 144 288 (kmem two_records) (lockstat_list two_records) (0, 200, 0, []) =
     Ret (0, 200, 288, [])"
  by (simp add: two_records_def boot_def)

text \<open>
  C4. A read whose offset is not a multiple of the record size, or whose length is
  below one record, returns -1; no \<^verbatim>\<open>memmove\<close> is made and the state is unchanged.
\<close>

theorem lockstat_read_rejects:
  "\<not> unat sz dvd unat off \<or> unat n < unat sz \<Longrightarrow>
   lockstat_read dbg c sz off n s = Ret (- 1, [], s)"
  using lockstat_read_check [of off sz n] by (simp add: lockstat_read_def)

text \<open>With records of 144 bytes: the offset 100, and the length 10.\<close>

theorem lockstat_read_rejects_witness:
  "\<not> unat (144 :: u64) dvd unat (100 :: u32) \<and>
   lockstat_read True 0 144 100 1000 two_records = Ret (- 1, [], two_records) \<and>
   unat (10 :: u32) < unat (144 :: u64) \<and>
   lockstat_read True 0 144 144 10 two_records = Ret (- 1, [], two_records)"
proof -
  have h1: "\<not> unat (144 :: u64) dvd unat (100 :: u32)" by simp
  have h2: "unat (10 :: u32) < unat (144 :: u64)" by simp
  from h1 h2 lockstat_read_rejects [of 144 100 1000 True 0 two_records]
    lockstat_read_rejects [of 144 144 10 True 0 two_records]
  show ?thesis by blast
qed

text \<open>
  C5. For a read that passes the check, on a registry whose lock is free on entry and
  whose serialized size (number of records times record size) is below \<open>2 ^ 31\<close>, the
  call returns, and the value returned is the number of bytes that the \<^verbatim>\<open>memmove\<close>
  calls copied; when the offset is at or beyond the serialized size, the value is 0 and
  no copy is made.
\<close>

theorem lockstat_read_count:
  assumes "0 < unat sz" and "unat sz dvd unat off" and "unat sz \<le> unat n"
    and "registry_wf s" and "registry_free s"
    and "length (lockstat_list s) * unat sz < 2 ^ 31"
  shows "\<exists>r out s'. lockstat_read dbg c sz off n s = Ret (r, out, s') \<and>
           r = int (bytes_copied out) \<and>
           (length (lockstat_list s) * unat sz \<le> unat off \<longrightarrow> r = 0 \<and> out = [])"
proof -
  from lockstat_read_run [OF assms(2-5), of dbg c] obtain dst n' cur out s' where
    loop: "read_loop sz off (kmem s) (lockstat_list s) (0, n, 0, []) = Ret (dst, n', cur, out)"
    and r: "lockstat_read dbg c sz off n s = Ret (if off \<le> cur then sint (cur - off) else 0, out, s')"
    by blast
  have bd: "unat (0 :: u32) + length (lockstat_list s) * unat sz < 2 ^ 32"
    using assms(6) by simp
  have d0: "unat sz dvd unat (0 :: u32)" by simp
  from read_loop_count [OF assms(1) assms(2) d0 bd loop]
  have cnt: "bytes_copied out + unat off = max (unat cur) (unat off)"
    and le: "unat cur \<le> length (lockstat_list s) * unat sz"
    and far: "length (lockstat_list s) * unat sz \<le> unat off \<longrightarrow> out = []"
    by (simp_all add: bytes_copied_simps)
  have val: "(if off \<le> cur then sint (cur - off) else 0) = int (bytes_copied out)"
  proof (cases "off \<le> cur")
    case True
    then have le': "unat off \<le> unat cur" by (simp add: word_le_nat_alt)
    have sub: "unat (cur - off) = unat cur - unat off" using True by (rule unat_sub)
    from le assms(6) have "unat (cur - off) < 2 ^ 31" by (simp add: sub)
    then have v: "sint (cur - off) = int (unat (cur - off))" by (rule sint_u32_small)
    from cnt le' have "bytes_copied out = unat cur - unat off" by (simp add: max_def)
    then have "int (unat (cur - off)) = int (bytes_copied out)" by (simp only: sub)
    with v True show ?thesis by (simp only: if_True)
  next
    case False
    then have "unat cur < unat off" by (simp add: word_le_nat_alt)
    with cnt False show ?thesis by (simp add: max_def)
  qed
  have zero: "length (lockstat_list s) * unat sz \<le> unat off \<longrightarrow> int (bytes_copied out) = 0 \<and> out = []"
    using far by (auto simp: bytes_copied_simps)
  from r val zero show ?thesis by auto
qed

text \<open>
  On the registry of two records of 144 bytes: a read of 200 bytes at offset 0 copies
  one record and returns 144; a read at offset 288, the end, returns 0.
\<close>

theorem lockstat_read_count_witness:
  "0 < unat (144 :: u64) \<and> unat (144 :: u64) dvd unat (0 :: u32) \<and>
   unat (144 :: u64) dvd unat (288 :: u32) \<and> unat (144 :: u64) \<le> unat (200 :: u32) \<and>
   registry_wf two_records \<and> registry_free two_records \<and>
   length (lockstat_list two_records) * unat (144 :: u64) < 2 ^ 31 \<and>
   length (lockstat_list two_records) * unat (144 :: u64) \<le> unat (288 :: u32) \<and>
   (\<exists>out s'. lockstat_read True 0 144 0 200 two_records = Ret (144, out, s') \<and> bytes_copied out = 144) \<and>
   (\<exists>s'. lockstat_read True 0 144 288 200 two_records = Ret (0, [], s'))"
proof -
  have h: "0 < unat (144 :: u64)" "unat (144 :: u64) dvd unat (0 :: u32)"
    "unat (144 :: u64) dvd unat (288 :: u32)" "unat (144 :: u64) \<le> unat (200 :: u32)"
    by simp_all
  have sz: "length (lockstat_list two_records) * unat (144 :: u64) < 2 ^ 31"
    "length (lockstat_list two_records) * unat (144 :: u64) \<le> unat (288 :: u32)"
    by (simp_all add: two_records_def)
  note wf = registry_wf_two_records
  from lockstat_read_count [OF h(1) h(2) h(4) wf sz(1), of True 0] obtain r out s' where
    r1: "lockstat_read True 0 144 0 200 two_records = Ret (r, out, s')" and v1: "r = int (bytes_copied out)"
    by blast
  from lockstat_read_run [OF h(2) h(4) wf, of True 0] r1 read_two_records_head
  have "out = [(0, lstat rec_detached, 144)]" by auto
  then have b1: "bytes_copied out = 144" by (simp add: bytes_copied_def)
  with r1 v1 have p1: "\<exists>out s'. lockstat_read True 0 144 0 200 two_records = Ret (144, out, s') \<and>
      bytes_copied out = 144" by auto
  from lockstat_read_count [OF h(1) h(3) h(4) wf sz(1), of True 0] sz(2)
  have p2: "\<exists>s'. lockstat_read True 0 144 288 200 two_records = Ret (0, [], s')" by auto
  from h sz wf p1 p2 show ?thesis by blast
qed

text \<open>
  C10. Every completed read has copied whole records only: each \<^verbatim>\<open>memmove\<close> is of
  exactly one record size, so the number of bytes copied is the number of copies times
  the record size, a multiple of it, whatever the requested length. With the registry
  lock free on entry the read completes.
\<close>

theorem lockstat_read_whole_records:
  "(lockstat_read dbg c sz off n s = Ret (r, out, s') \<longrightarrow>
      (\<forall>e \<in> set out. snd (snd e) = unat sz) \<and> bytes_copied out = length out * unat sz \<and>
      unat sz dvd bytes_copied out) \<and>
   (registry_wf s \<and> registry_free s \<longrightarrow>
      (\<exists>r out s'. lockstat_read dbg c sz off n s = Ret (r, out, s')))"
proof (intro conjI impI)
  assume ret: "lockstat_read dbg c sz off n s = Ret (r, out, s')"
  from lockstat_read_Ret_entries [OF ret] show e: "\<forall>e \<in> set out. snd (snd e) = unat sz" .
  from bytes_copied_whole [OF e] show b: "bytes_copied out = length out * unat sz" .
  from b show "unat sz dvd bytes_copied out" by simp
next
  assume a: "registry_wf s \<and> registry_free s"
  show "\<exists>r out s'. lockstat_read dbg c sz off n s = Ret (r, out, s')"
  proof (cases "\<not> unat sz dvd unat off \<or> unat n < unat sz")
    case True
    then show ?thesis using lockstat_read_check [of off sz n] by (simp add: lockstat_read_def)
  next
    case False
    then have "unat sz dvd unat off" "unat sz \<le> unat n" by simp_all
    from lockstat_read_run [OF this, of s dbg c] a show ?thesis by blast
  qed
qed

text \<open>
  On the registry of two records of 144 bytes, a read of 200 bytes (not a multiple of
  144) at offset 0 completes with one copy of 144 bytes.
\<close>

theorem lockstat_read_whole_records_witness:
  "registry_wf two_records \<and> registry_free two_records \<and>
   (\<exists>r s'. lockstat_read True 0 144 0 200 two_records = Ret (r, [(0 :: nat, lstat rec_detached, 144 :: nat)], s')) \<and>
   bytes_copied [(0 :: nat, lstat rec_detached, 144 :: nat)] = length [(0 :: nat, lstat rec_detached, 144 :: nat)] * unat (144 :: u64) \<and>
   unat (144 :: u64) dvd bytes_copied [(0 :: nat, lstat rec_detached, 144 :: nat)]"
proof -
  note wf = registry_wf_two_records
  have h: "unat (144 :: u64) dvd unat (0 :: u32)" "unat (144 :: u64) \<le> unat (200 :: u32)" by simp_all
  from lockstat_read_run [OF h wf, of True 0] read_two_records_head
  obtain r s' where r: "lockstat_read True 0 144 0 200 two_records = Ret (r, [(0 :: nat, lstat rec_detached, 144 :: nat)], s')"
    by auto
  from lockstat_read_whole_records [of True 0 144 0 200 two_records r "[(0 :: nat, lstat rec_detached, 144 :: nat)]" s'] r
  have "bytes_copied [(0 :: nat, lstat rec_detached, 144 :: nat)] = length [(0 :: nat, lstat rec_detached, 144 :: nat)] * unat (144 :: u64)"
    "unat (144 :: u64) dvd bytes_copied [(0 :: nat, lstat rec_detached, 144 :: nat)]"
    by simp_all
  with wf r show ?thesis by blast
qed

end
